theory Spec2Isabelle
  imports Main "HOL-Library.Sublist" "HOL-Library.Word"
begin

unbundle bit_operations_syntax

section \<open>The reference-location engine of devbox (internal/patchpkg/search.go)\<close>

text \<open>
  Go strings and byte slices are sequences of bytes: they are modelled as \<open>string\<close>
  (a list of 8-bit \<open>char\<close>), so \<open>length\<close> is Go's \<open>len\<close>.
\<close>

subsection \<open>searchGlobs\<close>

text \<open>
  \<open>filepath.Glob\<close> belongs to the Go standard library and reads the filesystem. It is a
  parameter of the model: a function from a pattern to the list of matching paths, or
  \<open>None\<close> when the pattern is malformed (\<open>ErrBadPattern\<close>, the only error
  \<open>filepath.Glob\<close> returns).
\<close>

type_synonym globfn = "string \<Rightarrow> string list option"

text \<open>
  The consumer of an \<open>iter.Seq[string]\<close> is the function \<open>yield\<close>: arbitrary code with a
  state of its own (type \<open>'c\<close>), which answers whether the iteration goes on.
\<close>

type_synonym 'c yieldfn = "'c \<Rightarrow> string \<Rightarrow> bool \<times> 'c"

text \<open>
  The state of one run of the returned closure. \<open>seen\<close> is the Go map
  \<open>map[string]bool\<close> (a missing key reads \<open>false\<close>); \<open>expanded\<close> logs every pattern
  handed to \<open>filepath.Glob\<close> and \<open>yielded\<close> every path handed to \<open>yield\<close>, both in
  order; \<open>stopped\<close> records that \<open>yield\<close> answered \<open>false\<close>.
\<close>

record 'c run =
  seen :: "string \<Rightarrow> bool"
  expanded :: "string list"
  yielded :: "string list"
  consumer :: 'c
  stopped :: bool

text \<open>The inner loop \<open>for _, match := range glob\<close> (lines 98 to 107).\<close>

fun yield_matches :: "'c yieldfn \<Rightarrow> string list \<Rightarrow> 'c run \<Rightarrow> 'c run" where
  "yield_matches yield [] st = st"
| "yield_matches yield (m # ms) st =
     (if seen st m then yield_matches yield ms st
      else
        (case yield (consumer st) m of
           (go, c) \<Rightarrow>
             let st1 = st\<lparr>seen := (seen st)(m := True),
                         yielded := yielded st @ [m],
                         consumer := c\<rparr>
             in if \<not> go then st1\<lparr>stopped := True\<rparr>
                else yield_matches yield ms st1))"

text \<open>
  The outer loop \<open>for _, pattern := range patterns\<close> (lines 93 to 108). The \<open>return\<close>
  of line 105 leaves both loops: once \<open>stopped\<close> is set, nothing more runs.
\<close>

fun expand_patterns :: "globfn \<Rightarrow> 'c yieldfn \<Rightarrow> string list \<Rightarrow> 'c run \<Rightarrow> 'c run" where
  "expand_patterns glob yield [] st = st"
| "expand_patterns glob yield (p # ps) st =
     (let st1 = st\<lparr>expanded := expanded st @ [p]\<rparr>
      in case glob p of
           None \<Rightarrow> expand_patterns glob yield ps st1
         | Some ms \<Rightarrow>
             let st2 = yield_matches yield ms st1
             in if stopped st2 then st2 else expand_patterns glob yield ps st2)"

text \<open>
  The value returned by \<open>searchGlobs\<close> is a closure over \<open>patterns\<close> and over the map
  \<open>seen\<close>, which line 91 allocates before the closure is built. The closure is modelled
  by the record of what it captured; calling it (\<open>iterate\<close>) runs the loops on the
  captured map and leaves the map, as mutated, in the closure.
\<close>

record glob_seq =
  seq_patterns :: "string list"
  seq_seen :: "string \<Rightarrow> bool"

definition searchGlobs :: "string list \<Rightarrow> glob_seq" where
  "searchGlobs patterns = \<lparr>seq_patterns = patterns, seq_seen = (\<lambda>_. False)\<rparr>"

definition iterate :: "globfn \<Rightarrow> 'c yieldfn \<Rightarrow> glob_seq \<Rightarrow> 'c \<Rightarrow> glob_seq \<times> 'c run" where
  "iterate glob yield sq c =
     (let st = expand_patterns glob yield (seq_patterns sq)
                 \<lparr>seen = seq_seen sq, expanded = [], yielded = [], consumer = c,
                  stopped = False\<rparr>
      in (sq\<lparr>seq_seen := seen st\<rparr>, st))"

text \<open>Two consumers: one that takes every path, one that stops after the first.\<close>

definition take_all :: "unit yieldfn" where
  "take_all c m = (True, c)"


text \<open>
  The paths of all well-formed patterns, in pattern order then in \<open>filepath.Glob\<close>'s
  order, and the entries of a list that do not occur earlier in it.
\<close>

definition glob_all :: "globfn \<Rightarrow> string list \<Rightarrow> string list" where
  "glob_all glob patterns =
     concat (map (\<lambda>p. case glob p of None \<Rightarrow> [] | Some ms \<Rightarrow> ms) patterns)"

definition first_occurrences :: "'a list \<Rightarrow> 'a list" where
  "first_occurrences xs =
     map (\<lambda>i. xs ! i) (filter (\<lambda>i. xs ! i \<notin> set (take i xs)) [0..<length xs])"

text \<open>The paths a run yields when it starts from the set \<open>S\<close> and is never stopped.\<close>

fun unseen :: "(string \<Rightarrow> bool) \<Rightarrow> string list \<Rightarrow> string list" where
  "unseen S [] = []"
| "unseen S (m # ms) = (if S m then unseen S ms else m # unseen (S(m := True)) ms)"

text \<open>
  A small filesystem for the examples: the files \<open>ab\<close>, \<open>ac\<close> and \<open>bb\<close>, as
  \<open>filepath.Glob\<close> lists them (in lexical order) for two overlapping patterns; the
  pattern \<open>[\<close> is malformed, every other pattern matches nothing.
\<close>

definition demo_glob :: globfn where
  "demo_glob p =
     (if p = ''a*'' then Some [''ab'', ''ac'']
      else if p = ''*b'' then Some [''ab'', ''bb'']
      else if p = ''['' then None
      else Some [])"

subsection \<open>The standard library: unicode/utf8\<close>

text \<open>
  The Go standard library is not part of the repository. What \<open>search.go\<close> uses of it is
  modelled after its documented behaviour and its sources (\<open>unicode/utf8\<close>,
  \<open>regexp\<close>, \<open>io\<close>, \<open>strings\<close>), with the names of the library.

  A \<open>rune\<close> is an \<open>int32\<close>; the values that occur here are code points, \<open>RuneError\<close>
  and \<open>endOfText\<close>, far from the bounds of \<open>int32\<close>, so runes are integers.
\<close>

type_synonym rune = int

definition RuneError :: rune where
  "RuneError = 0xFFFD"

text \<open>
  The table \<open>first\<close> of \<open>utf8.go\<close> with \<open>acceptRanges\<close>: what a leading byte
  announces. \<open>Lead sz lo hi\<close> is a sequence of \<open>sz\<close> bytes whose second byte lies in
  \<open>[lo, hi]\<close>.
\<close>

datatype lead = Invalid | Ascii | Lead nat int int

definition first_byte :: "int \<Rightarrow> lead" where
  "first_byte b =
     (if b < 0x80 then Ascii
      else if b < 0xC2 then Invalid
      else if b < 0xE0 then Lead 2 0x80 0xBF
      else if b = 0xE0 then Lead 3 0xA0 0xBF
      else if b = 0xED then Lead 3 0x80 0x9F
      else if b < 0xF0 then Lead 3 0x80 0xBF
      else if b = 0xF0 then Lead 4 0x90 0xBF
      else if b < 0xF4 then Lead 4 0x80 0xBF
      else if b = 0xF4 then Lead 4 0x80 0x8F
      else Invalid)"

text \<open>
  \<open>utf8.DecodeRune\<close>: the first rune of \<open>p\<close> and its width in bytes; \<open>(RuneError, 0)\<close>
  on empty input and \<open>(RuneError, 1)\<close> on an invalid encoding. The indexing \<open>p ! k\<close> is
  guarded by \<open>length p < sz\<close>, as in the library.
\<close>

definition DecodeRune :: "string \<Rightarrow> rune \<times> nat" where
  "DecodeRune p =
     (if length p < 1 then (RuneError, 0)
      else
        let p0 = of_char (p ! 0) in
        case first_byte p0 of
          Ascii \<Rightarrow> (p0, 1)
        | Invalid \<Rightarrow> (RuneError, 1)
        | Lead sz lo hi \<Rightarrow>
            if length p < sz then (RuneError, 1)
            else
              let b1 = of_char (p ! 1) in
              if b1 < lo \<or> hi < b1 then (RuneError, 1)
              else if sz \<le> 2 then (push_bit 6 (p0 AND 0x1F) OR (b1 AND 0x3F), 2)
              else
                let b2 = of_char (p ! 2) in
                if b2 < 0x80 \<or> 0xBF < b2 then (RuneError, 1)
                else if sz \<le> 3 then
                  (push_bit 12 (p0 AND 0x0F) OR push_bit 6 (b1 AND 0x3F) OR (b2 AND 0x3F), 3)
                else
                  let b3 = of_char (p ! 3) in
                  if b3 < 0x80 \<or> 0xBF < b3 then (RuneError, 1)
                  else
                    (push_bit 18 (p0 AND 0x07) OR push_bit 12 (b1 AND 0x3F)
                       OR push_bit 6 (b2 AND 0x3F) OR (b3 AND 0x3F), 4))"

text \<open>
  \<open>utf8.AppendRune\<close>: the UTF-8 encoding of \<open>r\<close> appended to \<open>p\<close>. \<open>byte x\<close> is Go's
  conversion \<open>byte(x)\<close> (the low eight bits), \<open>r mod 2 ^ 32\<close> is \<open>uint32(r)\<close>. Runes out
  of range and surrogates are encoded as \<open>RuneError\<close>.
\<close>

definition byte :: "int \<Rightarrow> char" where
  "byte x = char_of (x mod 256)"

definition encode3 :: "rune \<Rightarrow> string" where
  "encode3 r = [byte (0xE0 OR drop_bit 12 r), byte (0x80 OR (drop_bit 6 r AND 0x3F)),
                byte (0x80 OR (r AND 0x3F))]"

definition AppendRune :: "string \<Rightarrow> rune \<Rightarrow> string" where
  "AppendRune p r =
     (let i = r mod 2 ^ 32 in
      if i \<le> 0x7F then p @ [byte r]
      else if i \<le> 0x7FF then p @ [byte (0xC0 OR drop_bit 6 r), byte (0x80 OR (r AND 0x3F))]
      else if i > 0x10FFFF \<or> (0xD800 \<le> i \<and> i \<le> 0xDFFF) then p @ encode3 RuneError
      else if i \<le> 0xFFFF then p @ encode3 r
      else p @ [byte (0xF0 OR drop_bit 18 r), byte (0x80 OR (drop_bit 12 r AND 0x3F)),
                byte (0x80 OR (drop_bit 6 r AND 0x3F)), byte (0x80 OR (r AND 0x3F))])"

lemma first_byte_Lead:
  "first_byte b = Lead sz lo hi
     \<Longrightarrow> 2 \<le> sz \<and> sz \<le> 4 \<and> 0x80 \<le> lo \<and> hi \<le> 0xBF \<and> 0xC2 \<le> b \<and> b \<le> 0xF4"
  by (simp add: first_byte_def split: if_splits)

lemma DecodeRune_width:
  "snd (DecodeRune p) \<le> length p \<and> (p \<noteq> [] \<longrightarrow> 0 < snd (DecodeRune p))"
proof (cases "p = []")
  case True
  then show ?thesis by (simp add: DecodeRune_def)
next
  case False
  then have l: "\<not> length p < 1" "1 \<le> length p" by (cases p; simp)+
  show ?thesis
  proof (cases "first_byte (of_char (p ! 0))")
    case Invalid
    then show ?thesis using l by (simp add: DecodeRune_def)
  next
    case Ascii
    then show ?thesis using l by (simp add: DecodeRune_def)
  next
    case (Lead sz lo hi)
    from first_byte_Lead [OF this] have sz: "2 \<le> sz" "sz \<le> 4" by simp_all
    then consider "sz = 2" | "sz = 3" | "sz = 4" by linarith
    then show ?thesis
      by cases (use Lead l in \<open>simp_all add: DecodeRune_def Let_def\<close>)
  qed
qed

subsection \<open>The standard library: regexp\<close>

text \<open>
  \<open>inputBytes.step\<close> of \<open>regexp\<close>: the rune at byte position \<open>pos\<close> and its width, or
  \<open>endOfText\<close> with width 0 at the end of the input. The engine reads its input rune
  by rune.
\<close>

definition endOfText :: rune where
  "endOfText = - 1"

definition step :: "string \<Rightarrow> nat \<Rightarrow> rune \<times> nat" where
  "step str pos =
     (if pos < length str then
        (let c = of_char (str ! pos)
         in if c < 0x80 then (c, 1) else DecodeRune (drop pos str))
      else (endOfText, 0))"

text \<open>
  A compiled pattern, as the syntax tree of \<open>regexp/syntax\<close> (with its operator names)
  for the fragment that the pattern of this repository needs: literals, character classes
  (a list of runes, negated or not), concatenation, alternation, the greedy repetitions
  \<open>*\<close>, \<open>+\<close>, \<open>?\<close> and the counted repetition \<open>{n}\<close>.
\<close>

datatype regexp =
    EmptyMatch
  | Literal rune
  | CharClass bool "rune list"
  | Concat regexp regexp
  | Alternate regexp regexp
  | Star regexp
  | Plus regexp
  | Quest regexp
  | Repeat nat regexp

text \<open>
  The matching of Go's \<open>regexp\<close> is leftmost-first: among the matches that start
  leftmost, the one a backtracking search finds first. \<open>ends re b i\<close> lists the
  positions where a match of \<open>re\<close> that starts at \<open>i\<close> can end, in the order in which a
  backtracking search meets them, so its head is the end of the preferred match.

  \<open>star_ends f n i\<close> is the greedy iteration of a body \<open>f\<close>. The number \<open>n\<close> bounds the
  iterations that consume input; \<open>ends\<close> passes the number of bytes left, which they
  cannot exceed. An iteration that consumes nothing ends the loop.
\<close>

fun star_ends :: "(nat \<Rightarrow> nat list) \<Rightarrow> nat \<Rightarrow> nat \<Rightarrow> nat list" where
  "star_ends f 0 i = [i]"
| "star_ends f (Suc n) i =
     concat (map (\<lambda>j. if i < j then star_ends f n j else [i]) (f i)) @ [i]"

fun ends :: "regexp \<Rightarrow> string \<Rightarrow> nat \<Rightarrow> nat list" where
  "ends EmptyMatch b i = [i]"
| "ends (Literal c) b i =
     (case step b i of (r, w) \<Rightarrow> if 0 < w \<and> r = c then [i + w] else [])"
| "ends (CharClass neg cs) b i =
     (case step b i of (r, w) \<Rightarrow> if 0 < w \<and> (r \<in> set cs) \<noteq> neg then [i + w] else [])"
| "ends (Concat x y) b i = concat (map (ends y b) (ends x b i))"
| "ends (Alternate x y) b i = ends x b i @ ends y b i"
| "ends (Star x) b i = star_ends (ends x b) (length b - i) i"
| "ends (Plus x) b i =
     concat (map (\<lambda>j. star_ends (ends x b) (length b - j) j) (ends x b i))"
| "ends (Quest x) b i = ends x b i @ [i]"
| "ends (Repeat n x) b i = ((\<lambda>js. concat (map (ends x b) js)) ^^ n) [i]"

text \<open>
  \<open>Regexp.doExecute\<close>: the leftmost-first match at or after \<open>pos\<close>, as the pair of its
  start and end, or \<open>None\<close>.
\<close>

definition doExecute :: "regexp \<Rightarrow> string \<Rightarrow> nat \<Rightarrow> (nat \<times> nat) option" where
  "doExecute re b pos =
     (case find (\<lambda>i. ends re b i \<noteq> []) [pos..<Suc (length b)] of
        None \<Rightarrow> None
      | Some i \<Rightarrow> Some (i, hd (ends re b i)))"

lemma step_width_le: "pos \<le> length b \<Longrightarrow> pos + snd (step b pos) \<le> length b"
  using DecodeRune_width [of "drop pos b"]
  by (auto simp: step_def Let_def)

lemma step_width_pos: "pos < length b \<Longrightarrow> 0 < snd (step b pos)"
  using DecodeRune_width [of "drop pos b"]
  by (auto simp: step_def Let_def)

lemma find_SomeD: "find P xs = Some x \<Longrightarrow> x \<in> set xs \<and> P x"
  by (induction xs) (auto split: if_splits)

lemma star_ends_bounds:
  assumes f: "\<And>i j. i \<le> N \<Longrightarrow> j \<in> set (f i) \<Longrightarrow> i \<le> j \<and> j \<le> N"
  shows "i \<le> N \<Longrightarrow> j \<in> set (star_ends f n i) \<Longrightarrow> i \<le> j \<and> j \<le> N"
proof (induction n arbitrary: i j)
  case 0
  then show ?case by simp
next
  case (Suc n)
  from Suc.prems(2) consider "j = i"
    | k where "k \<in> set (f i)" "i < k" "j \<in> set (star_ends f n k)"
    by (auto split: if_splits)
  then show ?case
  proof cases
    case 1
    then show ?thesis using Suc.prems(1) by simp
  next
    case 2
    from f [OF Suc.prems(1) 2(1)] have "k \<le> N" by simp
    from Suc.IH [OF this 2(3)] 2(2) show ?thesis by simp
  qed
qed

lemma repeat_ends_bounds:
  fixes N :: nat
  assumes f: "\<And>i j. i \<le> N \<Longrightarrow> j \<in> set (f i) \<Longrightarrow> i \<le> j \<and> j \<le> N"
  shows "\<forall>k\<in>set js. i \<le> k \<and> k \<le> N
           \<Longrightarrow> \<forall>k\<in>set (((\<lambda>js. concat (map f js)) ^^ n) js). i \<le> k \<and> k \<le> N"
proof (induction n arbitrary: js)
  case 0
  then show ?case by simp
next
  case (Suc n)
  have "\<forall>k\<in>set (concat (map f js)). i \<le> k \<and> k \<le> N"
  proof
    fix k
    assume "k \<in> set (concat (map f js))"
    then obtain m where m: "m \<in> set js" "k \<in> set (f m)" by auto
    from Suc.prems m(1) have im: "i \<le> m" "m \<le> N" by simp_all
    from f [OF im(2) m(2)] im(1) show "i \<le> k \<and> k \<le> N" by linarith
  qed
  from Suc.IH [OF this] show ?case by (simp only: funpow_Suc_right o_apply)
qed

lemma ends_bounds:
  "i \<le> length b \<Longrightarrow> j \<in> set (ends re b i) \<Longrightarrow> i \<le> j \<and> j \<le> length b"
proof (induction re arbitrary: i j)
  case EmptyMatch
  then show ?case by simp
next
  case (Literal c)
  obtain r w where s: "step b i = (r, w)" by (cases "step b i")
  with step_width_le [OF Literal.prems(1)] have "i + w \<le> length b" by simp
  with Literal.prems(2) s show ?case by (simp split: if_splits)
next
  case (CharClass neg cs)
  obtain r w where s: "step b i = (r, w)" by (cases "step b i")
  with step_width_le [OF CharClass.prems(1)] have "i + w \<le> length b" by simp
  with CharClass.prems(2) s show ?case by (simp split: if_splits)
next
  case (Concat x y)
  from Concat.prems(2) obtain k where k: "k \<in> set (ends x b i)" "j \<in> set (ends y b k)"
    by auto
  from Concat.IH(1) [OF Concat.prems(1) k(1)] have "i \<le> k" "k \<le> length b" by simp_all
  with Concat.IH(2) [OF \<open>k \<le> length b\<close> k(2)] show ?case by simp
next
  case (Alternate x y)
  from Alternate.prems(2) have "j \<in> set (ends x b i) \<or> j \<in> set (ends y b i)" by simp
  then show ?case
    using Alternate.IH(1) [OF Alternate.prems(1)] Alternate.IH(2) [OF Alternate.prems(1)]
    by blast
next
  case (Star x)
  from Star.prems(2) have "j \<in> set (star_ends (ends x b) (length b - i) i)" by simp
  from star_ends_bounds [of "length b" "ends x b", OF Star.IH Star.prems(1) this]
  show ?case by simp
next
  case (Plus x)
  from Plus.prems(2) obtain k where k: "k \<in> set (ends x b i)"
    "j \<in> set (star_ends (ends x b) (length b - k) k)" by auto
  from Plus.IH [OF Plus.prems(1) k(1)] have ik: "i \<le> k" "k \<le> length b" by simp_all
  from star_ends_bounds [of "length b" "ends x b", OF Plus.IH ik(2) k(2)] ik
  show ?case by simp
next
  case (Quest x)
  from Quest.prems(2) have "j \<in> set (ends x b i) \<or> j = i" by auto
  then show ?case
    using Quest.IH [OF Quest.prems(1)] Quest.prems(1) by auto
next
  case (Repeat n x)
  have "\<forall>k\<in>set [i]. i \<le> k \<and> k \<le> length b" using Repeat.prems(1) by simp
  from repeat_ends_bounds [of "length b" "ends x b", OF Repeat.IH this, of n] Repeat.prems(2)
  show ?case by simp
qed

lemma doExecute_bounds:
  assumes "doExecute re b pos = Some (m0, m1)"
  shows "pos \<le> m0 \<and> m0 \<le> m1 \<and> m1 \<le> length b"
proof -
  from assms obtain i where i: "find (\<lambda>i. ends re b i \<noteq> []) [pos..<Suc (length b)] = Some i"
    and m: "m0 = i" "m1 = hd (ends re b i)"
    by (auto simp: doExecute_def split: option.splits)
  from find_SomeD [OF i] have "i \<in> set [pos..<Suc (length b)]" and ne: "ends re b i \<noteq> []"
    by blast+
  then have "i \<in> {pos..<Suc (length b)}" by (simp only: set_upt)
  with ne have "pos \<le> i" "i \<le> length b" "hd (ends re b i) \<in> set (ends re b i)" by simp_all
  with ends_bounds [of i b "hd (ends re b i)" re] m show ?thesis by simp
qed

text \<open>
  \<open>Regexp.allMatches\<close>, the loop behind \<open>FindAllIndex\<close>: from \<open>pos\<close>, take the next
  match; an empty match that touches the end of the previous match is not delivered;
  after an empty match the position moves on by one rune (\<open>next_pos\<close>), otherwise to the
  end of the match. \<open>i\<close> counts the delivered matches, at most \<open>n\<close>, and
  \<open>prevMatchEnd\<close> starts at \<open>-1\<close>.
\<close>

definition next_pos :: "string \<Rightarrow> nat \<Rightarrow> nat \<Rightarrow> nat" where
  "next_pos b pos m1 =
     (if m1 = pos then
        (let width = snd (step b pos)
         in if 0 < width then pos + width else length b + 1)
      else m1)"

lemma next_pos_greater:
  "pos \<le> length b \<Longrightarrow> pos \<le> m1 \<Longrightarrow> pos < next_pos b pos m1"
  by (simp add: next_pos_def Let_def)

function allMatches ::
  "regexp \<Rightarrow> string \<Rightarrow> nat \<Rightarrow> nat \<Rightarrow> nat \<Rightarrow> int \<Rightarrow> (nat \<times> nat) list" where
  "allMatches re b n pos i prevMatchEnd =
     (if i < n \<and> pos \<le> length b then
        (case doExecute re b pos of
           None \<Rightarrow> []
         | Some (m0, m1) \<Rightarrow>
             if m1 = pos \<and> int m0 = prevMatchEnd
             then allMatches re b n (next_pos b pos m1) i (int m1)
             else (m0, m1) # allMatches re b n (next_pos b pos m1) (i + 1) (int m1))
      else [])"
  by pat_completeness auto
termination
proof (relation "measure (\<lambda>(re, b, n, pos, i, prevMatchEnd). length b + 1 - pos)")
  show "wf (measure (\<lambda>(re, b, n, pos, i, prevMatchEnd). length b + 1 - pos))" by simp
next
  fix re b and n pos i :: nat and prevMatchEnd :: int and x2 m0 m1
  assume a: "i < n \<and> pos \<le> length b" "doExecute re b pos = Some x2" "(m0, m1) = x2"
  then have "doExecute re b pos = Some (m0, m1)" by simp
  from doExecute_bounds [OF this] a(1) have "pos < next_pos b pos m1"
    by (intro next_pos_greater) simp_all
  with a(1) have d: "length b + 1 - next_pos b pos m1 < length b + 1 - pos" by linarith
  then show "((re, b, n, next_pos b pos m1, i, int m1), re, b, n, pos, i, prevMatchEnd)
      \<in> measure (\<lambda>(re, b, n, pos, i, prevMatchEnd). length b + 1 - pos)"
    by simp
  from d
  show "((re, b, n, next_pos b pos m1, i + 1, int m1), re, b, n, pos, i, prevMatchEnd)
      \<in> measure (\<lambda>(re, b, n, pos, i, prevMatchEnd). length b + 1 - pos)"
    by simp
qed

declare allMatches.simps [simp del]

text \<open>\<open>Regexp.FindAllIndex\<close>: a negative \<open>n\<close> stands for \<open>len(b) + 1\<close>.\<close>

definition FindAllIndex :: "regexp \<Rightarrow> string \<Rightarrow> int \<Rightarrow> (nat \<times> nat) list" where
  "FindAllIndex re b n =
     allMatches re b (if n < 0 then length b + 1 else nat n) 0 0 (- 1)"

subsection \<open>reRemovedRefs\<close>

text \<open>
  Line 22: \<open>e{32}-[^$"'{}/[\] \t\r\n]+\<close>. The class excludes the twelve characters
  \<open>$\<close>, \<open>"\<close>, \<open>'\<close>, \<open>{\<close>, \<open>}\<close>, \<open>/\<close>, \<open>[\<close>, \<open>]\<close>, space, tab, carriage return and
  line feed, listed here by code point in the order of the source.
\<close>

definition excluded :: "rune list" where
  "excluded = [0x24, 0x22, 0x27, 0x7B, 0x7D, 0x2F, 0x5B, 0x5D, 0x20, 0x09, 0x0D, 0x0A]"

definition reRemovedRefs :: regexp where
  "reRemovedRefs =
     Concat (Repeat 32 (Literal 0x65))
       (Concat (Literal 0x2D) (Plus (CharClass True excluded)))"

subsection \<open>searchFile\<close>

text \<open>
  Go's \<open>error\<close> values that a filesystem can answer with. \<open>io.EOF\<close> is not among them:
  \<open>io.ReadAll\<close> treats it as the end of the data, not as an error.
\<close>

datatype error = ErrNotExist | ErrPermission | ErrInvalid | ErrIO

text \<open>
  An open file, as a reader: the bytes it delivers, and then either the end of the file
  (\<open>None\<close>) or a read error. A filesystem (\<open>fs.FS\<close>) maps a path to the error of
  \<open>Open\<close> or to the file.
\<close>

record fs_file =
  contents :: string
  read_error :: "error option"

type_synonym fsys = "string \<Rightarrow> error + fs_file"

text \<open>
  \<open>ReadAll n f\<close> is \<open>io.ReadAll(&io.LimitedReader{R: f, N: n})\<close>, with both results
  of the Go function: the bytes read so far and the error. The limited reader answers
  \<open>io.EOF\<close> once \<open>n\<close> bytes are read, without reading \<open>f\<close> further, so what comes
  after the first \<open>n\<close> bytes, also an error, is never seen.
\<close>

definition ReadAll :: "nat \<Rightarrow> fs_file \<Rightarrow> string \<times> error option" where
  "ReadAll n f =
     (if n \<le> length (contents f) then (take n (contents f), None)
      else (contents f, read_error f))"

definition maxFileSize :: nat where
  "maxFileSize = 2 ^ 30"

text \<open>The struct \<open>fileSlice\<close>; \<open>offset\<close> is an \<open>int64\<close>, read through \<open>sint\<close>.\<close>

record fileSlice =
  path :: string
  data :: string
  offset :: "64 word"

text \<open>
  The slice expression \<open>s[lo:hi]\<close>. Go panics unless \<open>lo \<le> hi \<le> len(s)\<close>; every use
  below takes the bounds from a match of the engine, which lie in that range
  (\<open>doExecute_bounds\<close>, \<open>allMatches_bounds\<close>), so the panic is unreachable.
\<close>

definition slice :: "string \<Rightarrow> nat \<Rightarrow> nat \<Rightarrow> string" where
  "slice s lo hi = take (hi - lo) (drop lo s)"

text \<open>
  \<open>searchFile\<close> (lines 38 to 66) returns a pair, as the Go function does: the slices
  (\<open>nil\<close> is the empty list) and the error (\<open>None\<close> is \<open>nil\<close>). \<open>int64(start)\<close> is
  \<open>of_nat start\<close> in the 64-bit word.
\<close>

definition searchFile :: "fsys \<Rightarrow> string \<Rightarrow> regexp \<Rightarrow> fileSlice list \<times> error option" where
  "searchFile fsys p re =
     (case fsys p of
        Inl err \<Rightarrow> ([], Some err)
      | Inr f \<Rightarrow>
          (case ReadAll maxFileSize f of
             (dat, Some err) \<Rightarrow> ([], Some err)
           | (dat, None) \<Rightarrow>
               let locs = FindAllIndex re dat (- 1)
               in if length locs = 0 then ([], None)
                  else (map (\<lambda>(start, end).
                               \<lparr>path = p, data = slice dat start end, offset = of_nat start\<rparr>)
                          locs, None)))"

subsection \<open>searchEnv\<close>

text \<open>
  \<open>strings.Cut(s, sep)\<close> for a separator of one byte: the text before the first
  separator, the text after it, and whether it was found.
\<close>

definition Cut :: "string \<Rightarrow> char \<Rightarrow> string \<times> string \<times> bool" where
  "Cut s sep =
     (if sep \<in> set s
      then (takeWhile (\<lambda>c. c \<noteq> sep) s, tl (dropWhile (\<lambda>c. c \<noteq> sep) s), True)
      else (s, [], False))"

text \<open>
  \<open>envValues\<close> (lines 68 to 75) is computed once per process from \<open>os.Environ()\<close>; the
  environment at that moment is the parameter \<open>env\<close>.
\<close>

definition envValues :: "string list \<Rightarrow> string list" where
  "envValues env = map (\<lambda>e. case Cut e CHR ''='' of (before, after, found) \<Rightarrow> after) env"

text \<open>\<open>Regexp.FindString\<close>: the text of the leftmost match, or the empty string.\<close>

definition FindString :: "regexp \<Rightarrow> string \<Rightarrow> string" where
  "FindString re s =
     (case doExecute re s 0 of
        None \<Rightarrow> []
      | Some (a0, a1) \<Rightarrow> slice s a0 a1)"

text \<open>The loop of \<open>searchEnv\<close> (lines 78 to 84) over the values.\<close>

fun searchEnv_loop :: "regexp \<Rightarrow> string list \<Rightarrow> string" where
  "searchEnv_loop re [] = []"
| "searchEnv_loop re (env # rest) =
     (let match = FindString re env
      in if match \<noteq> [] then match else searchEnv_loop re rest)"

definition searchEnv :: "regexp \<Rightarrow> string list \<Rightarrow> string" where
  "searchEnv re environ = searchEnv_loop re (envValues environ)"

subsection \<open>globEscape\<close>

text \<open>
  \<open>strings.ContainsAny(s, chars)\<close> for ASCII \<open>chars\<close>: whether a byte of \<open>s\<close> is one of
  them (a byte of a multi-byte or invalid sequence is never ASCII).
\<close>

definition ContainsAny :: "string \<Rightarrow> string \<Rightarrow> bool" where
  "ContainsAny s chars = list_ex (\<lambda>c. c \<in> set chars) s"

lemma DecodeRune_progress:
  "(r, w) = DecodeRune s \<Longrightarrow> s \<noteq> [] \<Longrightarrow> length s - w < length s"
  using DecodeRune_width [of s] by (cases "DecodeRune s") auto

text \<open>
  The loop \<open>for _, r := range s\<close> (lines 120 to 126). Ranging over a string decodes it
  rune by rune as \<open>utf8.DecodeRuneInString\<close> does: an invalid byte gives \<open>RuneError\<close> and
  advances by one byte. The metacharacters are \<open>*\<close> (0x2A), \<open>?\<close> (0x3F), the backslash
  (0x5C) and \<open>[\<close> (0x5B).
\<close>

function globEscape_loop :: "string \<Rightarrow> string \<Rightarrow> string" where
  "globEscape_loop b s =
     (if s = [] then b
      else
        (case DecodeRune s of
           (r, w) \<Rightarrow>
             let b1 = (if r = 0x2A \<or> r = 0x3F \<or> r = 0x5C \<or> r = 0x5B
                       then b @ [CHR 0x5C] else b)
             in globEscape_loop (AppendRune b1 r) (drop w s)))"
  by pat_completeness auto
termination
  by (relation "measure (\<lambda>(b, s). length s)") (auto intro: DecodeRune_progress)

declare globEscape_loop.simps [simp del]

definition globEscape :: "string \<Rightarrow> string" where
  "globEscape s =
     (if \<not> ContainsAny s [CHR 0x2A, CHR 0x3F, CHR 0x5C, CHR 0x5B] then s
      else globEscape_loop [] s)"

subsection \<open>Notions used to state the properties, and examples\<close>

text \<open>
  A pattern matches a string when a match that starts at its first byte ends at its last.
\<close>

definition matches :: "regexp \<Rightarrow> string \<Rightarrow> bool" where
  "matches re s = (length s \<in> set (ends re s 0))"

text \<open>The bytes the character class of \<open>reRemovedRefs\<close> admits.\<close>

definition name_byte :: "char \<Rightarrow> bool" where
  "name_byte c = ((of_char c :: int) \<notin> set excluded)"

text \<open>
  The wording of the specification for the same class: anything except path separators
  (\<open>/\<close>), whitespace (space, tab, line feed, carriage return), quote characters (\<open>"\<close>,
  \<open>'\<close>) and brace or bracket characters (\<open>{\<close>, \<open>}\<close>, \<open>[\<close>, \<open>]\<close>).
\<close>

definition spec_name_byte :: "char \<Rightarrow> bool" where
  "spec_name_byte c =
     (c \<notin> set [CHR ''/'', CHR '' '', CHR 0x09, CHR 0x0A, CHR 0x0D, CHR 0x22, CHR 0x27,
                CHR ''{'', CHR ''}'', CHR ''['', CHR '']''])"

text \<open>Two index ranges in ascending order that do not overlap.\<close>

definition disjoint_ascending :: "(nat \<times> nat) \<Rightarrow> (nat \<times> nat) \<Rightarrow> bool" where
  "disjoint_ascending x y = (fst x < fst y \<and> snd x \<le> fst y)"

text \<open>The slice that \<open>searchFile\<close> builds for one index range (lines 59 to 63).\<close>

definition mk_slice :: "string \<Rightarrow> string \<Rightarrow> nat \<times> nat \<Rightarrow> fileSlice" where
  "mk_slice p dat loc = \<lparr>path = p, data = slice dat (fst loc) (snd loc), offset = of_nat (fst loc)\<rparr>"

text \<open>
  A filesystem for the examples: \<open>a.txt\<close> and \<open>b.txt\<close> of the specification's scenario,
  a file with two references, a file whose reading fails, and no other file. A file
  larger than \<open>maxFileSize\<close> with a reference after the ceiling, and an environment whose
  only reference stands in a variable's name.
\<close>

definition demo_fsys :: fsys where
  "demo_fsys p =
     (if p = ''a.txt'' then
        Inr \<lparr>contents = ''xeeeeeeeeeeeeeeeeeeeeeeeeeeeeeeee-foo bar'', read_error = None\<rparr>
      else if p = ''b.txt'' then
        Inr \<lparr>contents = ''no reference here'', read_error = None\<rparr>
      else if p = ''two.txt'' then
        Inr \<lparr>contents = ''eeeeeeeeeeeeeeeeeeeeeeeeeeeeeeee-a/eeeeeeeeeeeeeeeeeeeeeeeeeeeeeeee-b'',
            read_error = None\<rparr>
      else if p = ''broken'' then
        Inr \<lparr>contents = ''eeeeeeeeeeeeeeeeeeeeeeeeeeeeeeee-foo'', read_error = Some ErrIO\<rparr>
      else Inl ErrNotExist)"

definition big_file :: fs_file where
  "big_file = \<lparr>contents = replicate (2 ^ 30) CHR ''x'' @ ''eeeeeeeeeeeeeeeeeeeeeeeeeeeeeeee-late'',
               read_error = None\<rparr>"

definition demo_environ :: "string list" where
  "demo_environ =
     [''eeeeeeeeeeeeeeeeeeeeeeeeeeeeeeee-name=plain'', ''NOEQ'', ''HOME=/root'']"

text \<open>
  The four metacharacters of \<open>globEscape\<close>, and the result the specification describes:
  every byte of the input in order, each metacharacter preceded by a backslash.
\<close>

definition metachars :: string where
  "metachars = [CHR 0x2A, CHR 0x3F, CHR 0x5C, CHR 0x5B]"

definition escape_bytes :: "string \<Rightarrow> string" where
  "escape_bytes s = concat (map (\<lambda>c. if c \<in> set metachars then [CHR 0x5C, c] else [c]) s)"

text \<open>
  Valid UTF-8, as \<open>utf8.ValidString\<close> reports it: decoding rune by rune never meets an
  invalid encoding, which \<open>DecodeRune\<close> signals with \<open>(RuneError, 1)\<close>.
\<close>

function ValidString :: "string \<Rightarrow> bool" where
  "ValidString s =
     (if s = [] then True
      else
        (case DecodeRune s of
           (r, w) \<Rightarrow> \<not> (r = RuneError \<and> w = 1) \<and> ValidString (drop w s)))"
  by pat_completeness auto
termination
  by (relation "measure length") (auto intro: DecodeRune_progress)

declare ValidString.simps [simp del]

subsection \<open>Properties of searchGlobs\<close>

lemma unseen_set: "set (unseen S xs) = {x \<in> set xs. \<not> S x}"
  by (induction xs arbitrary: S) auto

lemma unseen_distinct: "distinct (unseen S xs)"
  by (induction xs arbitrary: S) (auto simp: unseen_set)

lemma unseen_append:
  "unseen S (xs @ ys) = unseen S xs @ unseen (\<lambda>x. S x \<or> x \<in> set xs) ys"
proof (induction xs arbitrary: S)
  case Nil
  then show ?case by simp
next
  case (Cons m ms)
  show ?case
  proof (cases "S m")
    case True
    then have b: "(\<lambda>x. S x \<or> x \<in> set ms) = (\<lambda>x. S x \<or> x \<in> set (m # ms))"
      by (auto simp: fun_eq_iff)
    have "unseen S ((m # ms) @ ys) = unseen S (ms @ ys)" using True by simp
    also have "\<dots> = unseen S ms @ unseen (\<lambda>x. S x \<or> x \<in> set ms) ys" by (rule Cons.IH)
    also have "\<dots> = unseen S (m # ms) @ unseen (\<lambda>x. S x \<or> x \<in> set (m # ms)) ys"
      unfolding b using True by simp
    finally show ?thesis .
  next
    case False
    have a: "(\<lambda>x. (S(m := True)) x \<or> x \<in> set ms) = (\<lambda>x. S x \<or> x \<in> set (m # ms))"
      by (auto simp: fun_eq_iff)
    have "unseen S ((m # ms) @ ys) = m # unseen (S(m := True)) (ms @ ys)" using False by simp
    also have "\<dots> = m # unseen (S(m := True)) ms @ unseen (\<lambda>x. (S(m := True)) x \<or> x \<in> set ms) ys"
      by (simp only: Cons.IH [of "S(m := True)"] append_Cons)
    also have "\<dots> = unseen S (m # ms) @ unseen (\<lambda>x. S x \<or> x \<in> set (m # ms)) ys"
      unfolding a using False by simp
    finally show ?thesis .
  qed
qed

lemma unseen_snoc:
  "unseen S (xs @ [x]) = unseen S xs @ (if S x \<or> x \<in> set xs then [] else [x])"
  by (simp add: unseen_append)

lemma unseen_index:
  "unseen S xs =
     map (\<lambda>i. xs ! i) (filter (\<lambda>i. \<not> S (xs ! i) \<and> xs ! i \<notin> set (take i xs)) [0..<length xs])"
proof (induction xs rule: rev_induct)
  case Nil
  then show ?case by simp
next
  case (snoc x xs)
  let ?P = "\<lambda>ys i. \<not> S (ys ! i) \<and> ys ! i \<notin> set (take i ys)"
  have f: "filter (?P (xs @ [x])) [0..<length xs] = filter (?P xs) [0..<length xs]"
    by (rule filter_cong) (auto simp: nth_append)
  have m: "map (\<lambda>i. (xs @ [x]) ! i) (filter (?P xs) [0..<length xs])
         = map (\<lambda>i. xs ! i) (filter (?P xs) [0..<length xs])"
    by (rule map_cong) (auto simp: nth_append)
  have l: "filter (?P (xs @ [x])) [length xs] = (if S x \<or> x \<in> set xs then [] else [length xs])"
    by simp
  have "map (\<lambda>i. (xs @ [x]) ! i) (filter (?P (xs @ [x])) [0..<length (xs @ [x])])
      = map (\<lambda>i. (xs @ [x]) ! i) (filter (?P (xs @ [x])) [0..<length xs])
        @ map (\<lambda>i. (xs @ [x]) ! i) (filter (?P (xs @ [x])) [length xs])"
    by (simp only: length_append_singleton upt_Suc_append [OF le0] filter_append map_append)
  also have "\<dots> = map (\<lambda>i. xs ! i) (filter (?P xs) [0..<length xs])
        @ (if S x \<or> x \<in> set xs then [] else [x])"
    unfolding f m l by simp
  also have "\<dots> = unseen S (xs @ [x])"
    by (simp only: unseen_snoc snoc.IH [symmetric])
  finally show ?case by simp
qed

lemma unseen_first_occurrences: "unseen (\<lambda>_. False) xs = first_occurrences xs"
  by (simp add: unseen_index [of "\<lambda>_. False"] first_occurrences_def)

lemma prefix_unseen_step:
  "\<not> S m \<Longrightarrow> prefix zs (unseen (S(m := True)) ms) \<Longrightarrow> prefix (m # zs) (unseen S (m # ms))"
  by simp

lemma yield_matches_run:
  assumes "\<not> stopped st"
  shows "\<exists>zs. yielded (yield_matches yield ms st) = yielded st @ zs
            \<and> prefix zs (unseen (seen st) ms)
            \<and> seen (yield_matches yield ms st) = (\<lambda>x. seen st x \<or> x \<in> set zs)
            \<and> expanded (yield_matches yield ms st) = expanded st
            \<and> (stopped (yield_matches yield ms st) \<longrightarrow> zs \<noteq> [] \<and> last zs \<in> set ms)
            \<and> (\<not> stopped (yield_matches yield ms st) \<longrightarrow> zs = unseen (seen st) ms)"
  using assms
proof (induction ms arbitrary: st)
  case Nil
  then show ?case by simp
next
  case (Cons m ms)
  show ?case
  proof (cases "seen st m")
    case True
    from Cons.IH [OF Cons.prems] obtain zs where
      "yielded (yield_matches yield ms st) = yielded st @ zs"
      "prefix zs (unseen (seen st) ms)"
      "seen (yield_matches yield ms st) = (\<lambda>x. seen st x \<or> x \<in> set zs)"
      "expanded (yield_matches yield ms st) = expanded st"
      "stopped (yield_matches yield ms st) \<longrightarrow> zs \<noteq> [] \<and> last zs \<in> set ms"
      "\<not> stopped (yield_matches yield ms st) \<longrightarrow> zs = unseen (seen st) ms"
      by blast
    with True show ?thesis by (intro exI [of _ zs]) simp
  next
    case False
    obtain go c where y: "yield (consumer st) m = (go, c)" by (cases "yield (consumer st) m")
    define st1 where "st1 = st\<lparr>seen := (seen st)(m := True), yielded := yielded st @ [m], consumer := c\<rparr>"
    have ns: "\<not> stopped st1" using Cons.prems by (simp add: st1_def)
    show ?thesis
    proof (cases go)
      case False
      with \<open>\<not> seen st m\<close> y have "yield_matches yield (m # ms) st = st1\<lparr>stopped := True\<rparr>"
        by (simp add: st1_def)
      with \<open>\<not> seen st m\<close> show ?thesis
        by (intro exI [of _ "[m]"]) (auto simp: st1_def fun_eq_iff)
    next
      case True
      with \<open>\<not> seen st m\<close> y have e: "yield_matches yield (m # ms) st = yield_matches yield ms st1"
        by (simp add: st1_def)
      from Cons.IH [OF ns] obtain zs where z:
        "yielded (yield_matches yield ms st1) = yielded st1 @ zs"
        "prefix zs (unseen (seen st1) ms)"
        "seen (yield_matches yield ms st1) = (\<lambda>x. seen st1 x \<or> x \<in> set zs)"
        "expanded (yield_matches yield ms st1) = expanded st1"
        "stopped (yield_matches yield ms st1) \<longrightarrow> zs \<noteq> [] \<and> last zs \<in> set ms"
        "\<not> stopped (yield_matches yield ms st1) \<longrightarrow> zs = unseen (seen st1) ms"
        by blast
      show ?thesis
        unfolding e using z \<open>\<not> seen st m\<close>
        by (intro exI [of _ "m # zs"]) (auto simp: st1_def fun_eq_iff)
    qed
  qed
qed

lemma unseen_cong_set:
  "(\<lambda>x. S x \<or> x \<in> set (unseen S xs)) = (\<lambda>x. S x \<or> x \<in> set xs)"
  by (auto simp: fun_eq_iff unseen_set)

lemma glob_all_Cons:
  "glob_all glob (p # ps) = (case glob p of None \<Rightarrow> [] | Some ms \<Rightarrow> ms) @ glob_all glob ps"
  by (simp add: glob_all_def)

lemma expand_patterns_run:
  assumes "\<not> stopped st"
  shows "\<exists>zs. yielded (expand_patterns glob yield ps st) = yielded st @ zs
            \<and> prefix zs (unseen (seen st) (glob_all glob ps))
            \<and> seen (expand_patterns glob yield ps st) = (\<lambda>x. seen st x \<or> x \<in> set zs)
            \<and> (\<not> stopped (expand_patterns glob yield ps st) \<longrightarrow>
                 zs = unseen (seen st) (glob_all glob ps)
                 \<and> expanded (expand_patterns glob yield ps st) = expanded st @ ps)
            \<and> (stopped (expand_patterns glob yield ps st) \<longrightarrow>
                 (\<exists>k<length ps. expanded (expand_patterns glob yield ps st) = expanded st @ take (Suc k) ps
                    \<and> (\<exists>ms. glob (ps ! k) = Some ms \<and> zs \<noteq> [] \<and> last zs \<in> set ms)))"
  using assms
proof (induction ps arbitrary: st)
  case Nil
  then show ?case by (simp add: glob_all_def)
next
  case (Cons p ps)
  define st1 where "st1 = st\<lparr>expanded := expanded st @ [p]\<rparr>"
  have ns1: "\<not> stopped st1" using Cons.prems by (simp add: st1_def)
  show ?case
  proof (cases "glob p")
    case None
    then have e: "expand_patterns glob yield (p # ps) st = expand_patterns glob yield ps st1"
      by (simp add: st1_def)
    have g: "glob_all glob (p # ps) = glob_all glob ps" using None by (simp add: glob_all_Cons)
    from Cons.IH [OF ns1] obtain zs where z:
      "yielded (expand_patterns glob yield ps st1) = yielded st1 @ zs"
      "prefix zs (unseen (seen st1) (glob_all glob ps))"
      "seen (expand_patterns glob yield ps st1) = (\<lambda>x. seen st1 x \<or> x \<in> set zs)"
      "\<not> stopped (expand_patterns glob yield ps st1) \<longrightarrow>
         zs = unseen (seen st1) (glob_all glob ps)
         \<and> expanded (expand_patterns glob yield ps st1) = expanded st1 @ ps"
      "stopped (expand_patterns glob yield ps st1) \<longrightarrow>
         (\<exists>k<length ps. expanded (expand_patterns glob yield ps st1) = expanded st1 @ take (Suc k) ps
            \<and> (\<exists>ms. glob (ps ! k) = Some ms \<and> zs \<noteq> [] \<and> last zs \<in> set ms))"
      by blast
    have s: "stopped (expand_patterns glob yield ps st1) \<longrightarrow>
         (\<exists>k<length (p # ps). expanded (expand_patterns glob yield ps st1) = expanded st @ take (Suc k) (p # ps)
            \<and> (\<exists>ms. glob ((p # ps) ! k) = Some ms \<and> zs \<noteq> [] \<and> last zs \<in> set ms))"
    proof
      assume "stopped (expand_patterns glob yield ps st1)"
      with z(5) obtain k ms where k: "k < length ps"
        "expanded (expand_patterns glob yield ps st1) = expanded st1 @ take (Suc k) ps"
        "glob (ps ! k) = Some ms" "zs \<noteq> []" "last zs \<in> set ms" by blast
      then show "\<exists>k<length (p # ps). expanded (expand_patterns glob yield ps st1) = expanded st @ take (Suc k) (p # ps)
            \<and> (\<exists>ms. glob ((p # ps) ! k) = Some ms \<and> zs \<noteq> [] \<and> last zs \<in> set ms)"
        by (intro exI [of _ "Suc k"]) (simp add: st1_def)
    qed
    show ?thesis
      unfolding e g using z(1,2,3,4) s
      by (intro exI [of _ zs]) (simp add: st1_def)
  next
    case (Some ms)
    define st2 where "st2 = yield_matches yield ms st1"
    have g: "glob_all glob (p # ps) = ms @ glob_all glob ps" using Some by (simp add: glob_all_Cons)
    from yield_matches_run [OF ns1, of yield ms] obtain zs1 where z1:
      "yielded st2 = yielded st1 @ zs1"
      "prefix zs1 (unseen (seen st1) ms)"
      "seen st2 = (\<lambda>x. seen st1 x \<or> x \<in> set zs1)"
      "expanded st2 = expanded st1"
      "stopped st2 \<longrightarrow> zs1 \<noteq> [] \<and> last zs1 \<in> set ms"
      "\<not> stopped st2 \<longrightarrow> zs1 = unseen (seen st1) ms"
      unfolding st2_def by blast
    show ?thesis
    proof (cases "stopped st2")
      case True
      then have e: "expand_patterns glob yield (p # ps) st = st2"
        using Some by (simp add: st1_def st2_def)
      have "prefix zs1 (unseen (seen st) (glob_all glob (p # ps)))"
        unfolding g unseen_append using z1(2) by (simp add: st1_def prefix_prefix)
      moreover have "\<exists>k<length (p # ps). expanded st2 = expanded st @ take (Suc k) (p # ps)
            \<and> (\<exists>ms. glob ((p # ps) ! k) = Some ms \<and> zs1 \<noteq> [] \<and> last zs1 \<in> set ms)"
        using z1(4,5) True Some by (intro exI [of _ 0]) (simp add: st1_def)
      ultimately show ?thesis
        unfolding e using z1(1,3) True
        by (intro exI [of _ zs1]) (simp add: st1_def)
    next
      case False
      then have e: "expand_patterns glob yield (p # ps) st = expand_patterns glob yield ps st2"
        using Some by (simp add: st1_def st2_def)
      have zs1: "zs1 = unseen (seen st) ms" using z1(6) False by (simp add: st1_def)
      have seen2: "seen st2 = (\<lambda>x. seen st x \<or> x \<in> set ms)"
        using z1(3) unfolding zs1 by (simp add: st1_def unseen_cong_set)
      from Cons.IH [OF False] obtain zs where z:
        "yielded (expand_patterns glob yield ps st2) = yielded st2 @ zs"
        "prefix zs (unseen (seen st2) (glob_all glob ps))"
        "seen (expand_patterns glob yield ps st2) = (\<lambda>x. seen st2 x \<or> x \<in> set zs)"
        "\<not> stopped (expand_patterns glob yield ps st2) \<longrightarrow>
           zs = unseen (seen st2) (glob_all glob ps)
           \<and> expanded (expand_patterns glob yield ps st2) = expanded st2 @ ps"
        "stopped (expand_patterns glob yield ps st2) \<longrightarrow>
           (\<exists>k<length ps. expanded (expand_patterns glob yield ps st2) = expanded st2 @ take (Suc k) ps
              \<and> (\<exists>ms. glob (ps ! k) = Some ms \<and> zs \<noteq> [] \<and> last zs \<in> set ms))"
        by blast
      have y: "yielded (expand_patterns glob yield ps st2) = yielded st @ (zs1 @ zs)"
        using z(1) z1(1) by (simp add: st1_def)
      have p: "prefix (zs1 @ zs) (unseen (seen st) (glob_all glob (p # ps)))"
        unfolding g unseen_append using z(2) by (simp add: zs1 seen2)
      have sn: "seen (expand_patterns glob yield ps st2) = (\<lambda>x. seen st x \<or> x \<in> set (zs1 @ zs))"
        using z(3) z1(3) by (auto simp: st1_def fun_eq_iff)
      have n: "\<not> stopped (expand_patterns glob yield ps st2) \<longrightarrow>
           zs1 @ zs = unseen (seen st) (glob_all glob (p # ps))
           \<and> expanded (expand_patterns glob yield ps st2) = expanded st @ (p # ps)"
        unfolding g unseen_append using z(4) z1(4) by (simp add: zs1 seen2 st1_def)
      have s: "stopped (expand_patterns glob yield ps st2) \<longrightarrow>
         (\<exists>k<length (p # ps). expanded (expand_patterns glob yield ps st2) = expanded st @ take (Suc k) (p # ps)
            \<and> (\<exists>ms. glob ((p # ps) ! k) = Some ms \<and> zs1 @ zs \<noteq> [] \<and> last (zs1 @ zs) \<in> set ms))"
      proof
        assume "stopped (expand_patterns glob yield ps st2)"
        with z(5) obtain k ms' where k: "k < length ps"
          "expanded (expand_patterns glob yield ps st2) = expanded st2 @ take (Suc k) ps"
          "glob (ps ! k) = Some ms'" "zs \<noteq> []" "last zs \<in> set ms'" by blast
        then show "\<exists>k<length (p # ps). expanded (expand_patterns glob yield ps st2) = expanded st @ take (Suc k) (p # ps)
            \<and> (\<exists>ms. glob ((p # ps) ! k) = Some ms \<and> zs1 @ zs \<noteq> [] \<and> last (zs1 @ zs) \<in> set ms)"
          using z1(4) by (intro exI [of _ "Suc k"]) (simp add: st1_def)
      qed
      show ?thesis
        unfolding e using y p sn n s by (intro exI [of _ "zs1 @ zs"]) blast
    qed
  qed
qed

lemma iterate_run:
  "\<exists>zs. yielded (snd (iterate glob yield sq c)) = zs
      \<and> prefix zs (unseen (seq_seen sq) (glob_all glob (seq_patterns sq)))
      \<and> seq_seen (fst (iterate glob yield sq c)) = (\<lambda>x. seq_seen sq x \<or> x \<in> set zs)
      \<and> seq_patterns (fst (iterate glob yield sq c)) = seq_patterns sq
      \<and> (\<not> stopped (snd (iterate glob yield sq c)) \<longrightarrow>
            zs = unseen (seq_seen sq) (glob_all glob (seq_patterns sq))
            \<and> expanded (snd (iterate glob yield sq c)) = seq_patterns sq)
      \<and> (stopped (snd (iterate glob yield sq c)) \<longrightarrow>
            (\<exists>k<length (seq_patterns sq).
               expanded (snd (iterate glob yield sq c)) = take (Suc k) (seq_patterns sq)
               \<and> (\<exists>ms. glob (seq_patterns sq ! k) = Some ms \<and> zs \<noteq> [] \<and> last zs \<in> set ms)))"
proof -
  define st0 :: "'a run" where
    "st0 = \<lparr>seen = seq_seen sq, expanded = [], yielded = [], consumer = c, stopped = False\<rparr>"
  have ns: "\<not> stopped st0" by (simp add: st0_def)
  have i: "iterate glob yield sq c =
      (sq\<lparr>seq_seen := seen (expand_patterns glob yield (seq_patterns sq) st0)\<rparr>,
       expand_patterns glob yield (seq_patterns sq) st0)"
    by (simp add: iterate_def st0_def Let_def)
  from expand_patterns_run [OF ns, of glob yield "seq_patterns sq"]
  show ?thesis unfolding i by (simp add: st0_def)
qed

text \<open>
  Claim C1. One iteration of the sequence of a fresh \<open>searchGlobs patterns\<close> yields, in
  this order, the paths matched by the well-formed patterns (taken in input order), each
  path once and at its first occurrence: whatever the consumer does, the yielded paths
  are a prefix of that list, and when the consumer never stops they are the whole list and
  every pattern, also those after a malformed one, has been expanded.
\<close>

theorem searchGlobs_each_path_once:
  assumes "iterate glob yield (searchGlobs patterns) c = (sq, r)"
  shows "prefix (yielded r) (first_occurrences (glob_all glob patterns))
       \<and> (\<not> stopped r \<longrightarrow>
            yielded r = first_occurrences (glob_all glob patterns) \<and> expanded r = patterns)
       \<and> distinct (first_occurrences (glob_all glob patterns))
       \<and> set (first_occurrences (glob_all glob patterns))
           = (\<Union>p\<in>set patterns. case glob p of None \<Rightarrow> {} | Some ms \<Rightarrow> set ms)"
proof -
  have r: "r = snd (iterate glob yield (searchGlobs patterns) c)" using assms by simp
  have f: "first_occurrences (glob_all glob patterns)
             = unseen (\<lambda>_. False) (glob_all glob patterns)"
    by (simp add: unseen_first_occurrences)
  have s: "set (glob_all glob patterns)
             = (\<Union>p\<in>set patterns. case glob p of None \<Rightarrow> {} | Some ms \<Rightarrow> set ms)"
    by (induction patterns) (simp_all add: glob_all_Cons glob_all_def split: option.splits)
  have d: "distinct (unseen (\<lambda>_. False) (glob_all glob patterns))"
    by (rule unseen_distinct)
  have u: "set (unseen (\<lambda>_. False) (glob_all glob patterns))
             = (\<Union>p\<in>set patterns. case glob p of None \<Rightarrow> {} | Some ms \<Rightarrow> set ms)"
    unfolding s [symmetric] by (simp add: unseen_set)
  from iterate_run [of glob yield "searchGlobs patterns" c]
  have "prefix (yielded r) (unseen (\<lambda>_. False) (glob_all glob patterns))
       \<and> (\<not> stopped r \<longrightarrow>
            yielded r = unseen (\<lambda>_. False) (glob_all glob patterns) \<and> expanded r = patterns)"
    unfolding r by (simp add: searchGlobs_def)
  with d u show ?thesis unfolding f by blast
qed

theorem searchGlobs_each_path_once_witness:
  "iterate demo_glob take_all (searchGlobs [''a*'', ''['', ''*b'']) ()
     = (\<lparr>seq_patterns = [''a*'', ''['', ''*b''],
         seq_seen = (\<lambda>x. x = ''ab'' \<or> x = ''ac'' \<or> x = ''bb'')\<rparr>,
        \<lparr>seen = (\<lambda>x. x = ''ab'' \<or> x = ''ac'' \<or> x = ''bb''),
         expanded = [''a*'', ''['', ''*b''], yielded = [''ab'', ''ac'', ''bb''],
         consumer = (), stopped = False\<rparr>)
   \<and> first_occurrences (glob_all demo_glob [''a*'', ''['', ''*b'']) = [''ab'', ''ac'', ''bb'']"
proof -
  have i: "iterate demo_glob take_all (searchGlobs [''a*'', ''['', ''*b'']) ()
     = (\<lparr>seq_patterns = [''a*'', ''['', ''*b''],
         seq_seen = (\<lambda>x. x = ''ab'' \<or> x = ''ac'' \<or> x = ''bb'')\<rparr>,
        \<lparr>seen = (\<lambda>x. x = ''ab'' \<or> x = ''ac'' \<or> x = ''bb''),
         expanded = [''a*'', ''['', ''*b''], yielded = [''ab'', ''ac'', ''bb''],
         consumer = (), stopped = False\<rparr>)"
    by (auto simp: iterate_def searchGlobs_def demo_glob_def take_all_def fun_eq_iff)
  from searchGlobs_each_path_once [OF i] i show ?thesis by simp
qed



text \<open>
  Claim C2 says that iterating the sequence returned by one call a second time yields the
  same paths again. It does not: the map \<open>seen\<close> is allocated once per call of
  \<open>searchGlobs\<close>, outside the closure, so the second iteration finds every path already
  seen.
\<close>

theorem searchGlobs_second_iteration_counterexample:
  "yielded (snd (iterate demo_glob take_all (searchGlobs [''a*'', ''*b'']) ()))
     = [''ab'', ''ac'', ''bb'']
   \<and> yielded (snd (iterate demo_glob take_all
        (fst (iterate demo_glob take_all (searchGlobs [''a*'', ''*b'']) ())) ())) = []"
  by (simp add: iterate_def searchGlobs_def demo_glob_def take_all_def)

text \<open>
  Claim C2, as amended. The set of seen paths belongs to one call of \<open>searchGlobs\<close> and
  is shared by every iteration of the sequence that call returned: it is empty when the
  call returns, after an iteration it holds the paths that iteration yielded, a later
  iteration of the same sequence yields none of them, and after an iteration that ran to
  its end a second iteration (against the same filesystem) yields nothing.
\<close>

theorem searchGlobs_seen_shared:
  assumes "iterate glob yield1 (searchGlobs patterns) c1 = (sq1, r1)"
    and "iterate glob yield2 sq1 c2 = (sq2, r2)"
  shows "seq_seen (searchGlobs patterns) = (\<lambda>_. False)
       \<and> seq_seen sq1 = (\<lambda>x. x \<in> set (yielded r1))
       \<and> set (yielded r2) \<inter> set (yielded r1) = {}
       \<and> (\<not> stopped r1 \<longrightarrow> yielded r2 = [])"
proof -
  have r1: "r1 = snd (iterate glob yield1 (searchGlobs patterns) c1)"
    and s1: "sq1 = fst (iterate glob yield1 (searchGlobs patterns) c1)"
    using assms(1) by simp_all
  have r2: "r2 = snd (iterate glob yield2 sq1 c2)" using assms(2) by simp
  from iterate_run [of glob yield1 "searchGlobs patterns" c1]
  have a: "seq_seen sq1 = (\<lambda>x. x \<in> set (yielded r1))"
    and p: "seq_patterns sq1 = patterns"
    and n: "\<not> stopped r1 \<longrightarrow> yielded r1 = unseen (\<lambda>_. False) (glob_all glob patterns)"
    unfolding r1 s1 by (simp_all add: searchGlobs_def)
  from iterate_run [of glob yield2 sq1 c2]
  have b: "prefix (yielded r2) (unseen (\<lambda>x. x \<in> set (yielded r1)) (glob_all glob patterns))"
    unfolding r2 a p by simp
  then have "set (yielded r2) \<subseteq> set (unseen (\<lambda>x. x \<in> set (yielded r1)) (glob_all glob patterns))"
    by (rule set_mono_prefix)
  then have d: "set (yielded r2) \<inter> set (yielded r1) = {}"
    by (auto simp: unseen_set)
  have e: "\<not> stopped r1 \<longrightarrow> yielded r2 = []"
  proof
    assume "\<not> stopped r1"
    with n have y: "yielded r1 = unseen (\<lambda>_. False) (glob_all glob patterns)" by simp
    have "set (unseen (\<lambda>x. x \<in> set (yielded r1)) (glob_all glob patterns)) = {}"
      unfolding y by (auto simp: unseen_set)
    then have "unseen (\<lambda>x. x \<in> set (yielded r1)) (glob_all glob patterns) = []" by simp
    with b show "yielded r2 = []" by simp
  qed
  show ?thesis using a d e by (simp add: searchGlobs_def)
qed

theorem searchGlobs_seen_shared_witness:
  "iterate demo_glob take_all (searchGlobs [''a*'', ''*b'']) ()
     = (\<lparr>seq_patterns = [''a*'', ''*b''],
         seq_seen = (\<lambda>x. x = ''ab'' \<or> x = ''ac'' \<or> x = ''bb'')\<rparr>,
        \<lparr>seen = (\<lambda>x. x = ''ab'' \<or> x = ''ac'' \<or> x = ''bb''),
         expanded = [''a*'', ''*b''], yielded = [''ab'', ''ac'', ''bb''],
         consumer = (), stopped = False\<rparr>)
   \<and> iterate demo_glob take_all
        \<lparr>seq_patterns = [''a*'', ''*b''],
         seq_seen = (\<lambda>x. x = ''ab'' \<or> x = ''ac'' \<or> x = ''bb'')\<rparr> ()
     = (\<lparr>seq_patterns = [''a*'', ''*b''],
         seq_seen = (\<lambda>x. x = ''ab'' \<or> x = ''ac'' \<or> x = ''bb'')\<rparr>,
        \<lparr>seen = (\<lambda>x. x = ''ab'' \<or> x = ''ac'' \<or> x = ''bb''),
         expanded = [''a*'', ''*b''], yielded = [],
         consumer = (), stopped = False\<rparr>)"
proof -
  have i: "iterate demo_glob take_all (searchGlobs [''a*'', ''*b'']) ()
     = (\<lparr>seq_patterns = [''a*'', ''*b''],
         seq_seen = (\<lambda>x. x = ''ab'' \<or> x = ''ac'' \<or> x = ''bb'')\<rparr>,
        \<lparr>seen = (\<lambda>x. x = ''ab'' \<or> x = ''ac'' \<or> x = ''bb''),
         expanded = [''a*'', ''*b''], yielded = [''ab'', ''ac'', ''bb''],
         consumer = (), stopped = False\<rparr>)"
    by (auto simp: iterate_def searchGlobs_def demo_glob_def take_all_def fun_eq_iff)
  have j: "iterate demo_glob take_all
        \<lparr>seq_patterns = [''a*'', ''*b''],
         seq_seen = (\<lambda>x. x = ''ab'' \<or> x = ''ac'' \<or> x = ''bb'')\<rparr> ()
     = (\<lparr>seq_patterns = [''a*'', ''*b''],
         seq_seen = (\<lambda>x. x = ''ab'' \<or> x = ''ac'' \<or> x = ''bb'')\<rparr>,
        \<lparr>seen = (\<lambda>x. x = ''ab'' \<or> x = ''ac'' \<or> x = ''bb''),
         expanded = [''a*'', ''*b''], yielded = [],
         consumer = (), stopped = False\<rparr>)"
    by (auto simp: iterate_def demo_glob_def take_all_def fun_eq_iff)
  from searchGlobs_seen_shared [OF i j] i j show ?thesis by simp
qed

subsection \<open>Properties of searchFile\<close>

lemma doExecute_restart:
  assumes "doExecute re b pos = Some (m0, m1)"
  shows "doExecute re b m0 = Some (m0, m1)"
proof -
  from assms obtain i where i: "find (\<lambda>i. ends re b i \<noteq> []) [pos..<Suc (length b)] = Some i"
    and m: "m0 = i" "m1 = hd (ends re b i)"
    by (auto simp: doExecute_def split: option.splits)
  from find_SomeD [OF i] have "i \<in> set [pos..<Suc (length b)]" and ne: "ends re b i \<noteq> []"
    by blast+
  then have "i < Suc (length b)" by (simp only: set_upt atLeastLessThan_iff)
  then have "[i..<Suc (length b)] = i # [Suc i..<Suc (length b)]" by (rule upt_conv_Cons)
  then have "find (\<lambda>i. ends re b i \<noteq> []) [i..<Suc (length b)] = Some i"
    using ne by simp
  then show ?thesis using m by (simp add: doExecute_def)
qed

lemma allMatches_unfold:
  "allMatches re b n pos i prev =
     (if i < n \<and> pos \<le> length b then
        (case doExecute re b pos of
           None \<Rightarrow> []
         | Some (m0, m1) \<Rightarrow>
             if m1 = pos \<and> int m0 = prev
             then allMatches re b n (next_pos b pos m1) i (int m1)
             else (m0, m1) # allMatches re b n (next_pos b pos m1) (i + 1) (int m1))
      else [])"
  by (rule allMatches.simps)

lemma allMatches_bounds:
  "(a0, a1) \<in> set (allMatches re b n pos i prev) \<Longrightarrow> pos \<le> a0 \<and> a0 \<le> a1 \<and> a1 \<le> length b"
proof (induction re b n pos i prev rule: allMatches.induct)
  case (1 re b n pos i prev)
  note u = allMatches_unfold [of re b n pos i prev]
  have c: "i < n \<and> pos \<le> length b"
  proof (rule ccontr)
    assume "\<not> (i < n \<and> pos \<le> length b)"
    then have "allMatches re b n pos i prev = []" by (subst u) auto
    with "1.prems" show False by simp
  qed
  have "doExecute re b pos \<noteq> None"
  proof
    assume "doExecute re b pos = None"
    with c have "allMatches re b n pos i prev = []" by (subst u) simp
    with "1.prems" show False by simp
  qed
  then obtain m0 m1 where d: "doExecute re b pos = Some (m0, m1)" by auto
  have e: "allMatches re b n pos i prev =
      (if m1 = pos \<and> int m0 = prev
       then allMatches re b n (next_pos b pos m1) i (int m1)
       else (m0, m1) # allMatches re b n (next_pos b pos m1) (i + 1) (int m1))"
    using c d by (subst u) simp
  from doExecute_bounds [OF d] have bd: "pos \<le> m0" "m0 \<le> m1" "m1 \<le> length b" by simp_all
  with c have np: "pos < next_pos b pos m1" by (intro next_pos_greater) simp_all
  show ?case
  proof (cases "m1 = pos \<and> int m0 = prev")
    case True
    with "1.prems"
    have "(a0, a1) \<in> set (allMatches re b n (next_pos b pos m1) i (int m1))"
      unfolding e by simp
    from "1.IH"(1) [OF c d refl True this] np show ?thesis by simp
  next
    case False
    with "1.prems"
    have "(a0, a1) = (m0, m1)
        \<or> (a0, a1) \<in> set (allMatches re b n (next_pos b pos m1) (i + 1) (int m1))"
      unfolding e by auto
    then show ?thesis
    proof
      assume "(a0, a1) = (m0, m1)"
      with bd show ?thesis by simp
    next
      assume "(a0, a1) \<in> set (allMatches re b n (next_pos b pos m1) (i + 1) (int m1))"
      from "1.IH"(2) [OF c d refl False this] np show ?thesis by simp
    qed
  qed
qed

lemma allMatches_cases:
  assumes "(a0, a1) \<in> set (allMatches re b n pos i prev)"
  obtains m0 m1 where "doExecute re b pos = Some (m0, m1)"
    and "((a0, a1) = (m0, m1) \<and> \<not> (m1 = pos \<and> int m0 = prev)) \<or> next_pos b pos m1 \<le> a0"
proof -
  note u = allMatches_unfold [of re b n pos i prev]
  have c: "i < n \<and> pos \<le> length b"
  proof (rule ccontr)
    assume "\<not> (i < n \<and> pos \<le> length b)"
    then have "allMatches re b n pos i prev = []" by (subst u) auto
    with assms show False by simp
  qed
  have "doExecute re b pos \<noteq> None"
  proof
    assume "doExecute re b pos = None"
    with c have "allMatches re b n pos i prev = []" by (subst u) simp
    with assms show False by simp
  qed
  then obtain m0 m1 where d: "doExecute re b pos = Some (m0, m1)" by auto
  have e: "allMatches re b n pos i prev =
      (if m1 = pos \<and> int m0 = prev
       then allMatches re b n (next_pos b pos m1) i (int m1)
       else (m0, m1) # allMatches re b n (next_pos b pos m1) (i + 1) (int m1))"
    using c d by (subst u) simp
  have "((a0, a1) = (m0, m1) \<and> \<not> (m1 = pos \<and> int m0 = prev)) \<or> next_pos b pos m1 \<le> a0"
  proof (cases "m1 = pos \<and> int m0 = prev")
    case True
    with assms have "(a0, a1) \<in> set (allMatches re b n (next_pos b pos m1) i (int m1))"
      unfolding e by simp
    from allMatches_bounds [OF this] show ?thesis by simp
  next
    case False
    with assms have "(a0, a1) = (m0, m1)
        \<or> (a0, a1) \<in> set (allMatches re b n (next_pos b pos m1) (i + 1) (int m1))"
      unfolding e by auto
    then show ?thesis
    proof
      assume "(a0, a1) = (m0, m1)"
      with False show ?thesis by simp
    next
      assume "(a0, a1) \<in> set (allMatches re b n (next_pos b pos m1) (i + 1) (int m1))"
      from allMatches_bounds [OF this] show ?thesis by simp
    qed
  qed
  with d that show thesis by blast
qed

lemma allMatches_after:
  assumes d: "doExecute re b pos = Some (m0, m1)" and p: "pos \<le> length b"
    and r: "(a0, a1) \<in> set (allMatches re b n (next_pos b pos m1) j (int m1))"
  shows "m0 < a0 \<and> m1 \<le> a0"
proof -
  from doExecute_bounds [OF d] have bd: "pos \<le> m0" "m0 \<le> m1" "m1 \<le> length b" by simp_all
  from p bd have np: "pos < next_pos b pos m1" by (intro next_pos_greater) simp_all
  from allMatches_bounds [OF r] have a: "next_pos b pos m1 \<le> a0" by simp
  show ?thesis
  proof (cases "m1 = pos")
    case True
    with bd np a show ?thesis by simp
  next
    case False
    then have n: "next_pos b pos m1 = m1" by (simp add: next_pos_def)
    show ?thesis
    proof (cases "m0 < m1")
      case True
      with a n show ?thesis by simp
    next
      case False
      with bd have eq: "m0 = m1" by simp
      from doExecute_restart [OF d] eq have d': "doExecute re b m1 = Some (m1, m1)" by simp
      from r n have r': "(a0, a1) \<in> set (allMatches re b n m1 j (int m1))" by simp
      from r' obtain k0 k1 where "doExecute re b m1 = Some (k0, k1)"
        and k: "((a0, a1) = (k0, k1) \<and> \<not> (k1 = m1 \<and> int k0 = int m1)) \<or> next_pos b m1 k1 \<le> a0"
        by (rule allMatches_cases)
      with d' have "k0 = m1" "k1 = m1" by simp_all
      with k have "next_pos b m1 m1 \<le> a0" by simp
      moreover have "m1 < next_pos b m1 m1" using bd by (intro next_pos_greater) simp_all
      ultimately show ?thesis using eq by simp
    qed
  qed
qed

lemma allMatches_sorted:
  "sorted_wrt disjoint_ascending (allMatches re b n pos i prev)"
proof (induction re b n pos i prev rule: allMatches.induct)
  case (1 re b n pos i prev)
  note u = allMatches_unfold [of re b n pos i prev]
  show ?case
  proof (cases "i < n \<and> pos \<le> length b")
    case False
    then have "allMatches re b n pos i prev = []" by (subst u) auto
    then show ?thesis by simp
  next
    case c: True
    show ?thesis
    proof (cases "doExecute re b pos")
      case None
      with c have "allMatches re b n pos i prev = []" by (subst u) simp
      then show ?thesis by simp
    next
      case (Some m)
      obtain m0 m1 where m: "m = (m0, m1)" by (cases m)
      with Some have d: "doExecute re b pos = Some (m0, m1)" by simp
      have e: "allMatches re b n pos i prev =
          (if m1 = pos \<and> int m0 = prev
           then allMatches re b n (next_pos b pos m1) i (int m1)
           else (m0, m1) # allMatches re b n (next_pos b pos m1) (i + 1) (int m1))"
        using c d by (subst u) simp
      show ?thesis
      proof (cases "m1 = pos \<and> int m0 = prev")
        case True
        from "1.IH"(1) [OF c d refl True] True show ?thesis unfolding e by simp
      next
        case False
        have "\<forall>y\<in>set (allMatches re b n (next_pos b pos m1) (i + 1) (int m1)).
                disjoint_ascending (m0, m1) y"
        proof
          fix y
          assume y: "y \<in> set (allMatches re b n (next_pos b pos m1) (i + 1) (int m1))"
          obtain a0 a1 where "y = (a0, a1)" by (cases y)
          with y allMatches_after [OF d, of a0 a1 n "i + 1"] c
          show "disjoint_ascending (m0, m1) y" by (simp add: disjoint_ascending_def)
        qed
        with "1.IH"(2) [OF c d refl False] False show ?thesis unfolding e by auto
      qed
    qed
  qed
qed

lemma FindAllIndex_sorted: "sorted_wrt disjoint_ascending (FindAllIndex re b n)"
  by (simp add: FindAllIndex_def allMatches_sorted)

lemma FindAllIndex_bounds:
  "(a0, a1) \<in> set (FindAllIndex re b n) \<Longrightarrow> a0 \<le> a1 \<and> a1 \<le> length b"
  using allMatches_bounds [of a0 a1 re b _ 0 0 "- 1"] by (simp add: FindAllIndex_def)

lemma ReadAll_length: "length (fst (ReadAll n f)) \<le> n"
  by (simp add: ReadAll_def)

lemma sint_of_nat_int64:
  "n < 2 ^ 63 \<Longrightarrow> sint (of_nat n :: 64 word) = int n"
  by (simp add: signed_of_nat signed_take_bit_int_eq_self)

lemma demo_a_locs:
  "FindAllIndex reRemovedRefs ''xeeeeeeeeeeeeeeeeeeeeeeeeeeeeeeee-foo bar'' (- 1) = [(1, 37)]"
  by code_simp


lemma demo_two_locs:
  "FindAllIndex reRemovedRefs
     ''eeeeeeeeeeeeeeeeeeeeeeeeeeeeeeee-a/eeeeeeeeeeeeeeeeeeeeeeeeeeeeeeee-b'' (- 1)
   = [(0, 34), (35, 69)]"
  by code_simp

lemma searchFile_success:
  assumes "fsys p = Inr f" and "snd (ReadAll maxFileSize f) = None"
  shows "searchFile fsys p re =
           (map (mk_slice p (fst (ReadAll maxFileSize f)))
              (FindAllIndex re (fst (ReadAll maxFileSize f)) (- 1)), None)"
proof -
  obtain dat where r: "ReadAll maxFileSize f = (dat, None)"
    using assms(2) by (cases "ReadAll maxFileSize f") simp
  have m: "(\<lambda>(start, end). \<lparr>path = p, data = slice dat start end, offset = of_nat start\<rparr>)
             = mk_slice p dat"
    by (simp add: fun_eq_iff mk_slice_def)
  show ?thesis
    using assms(1) r by (simp add: searchFile_def Let_def m)
qed

lemma searchFile_failure:
  assumes "fsys p = Inr f" and "snd (ReadAll maxFileSize f) = Some e"
  shows "searchFile fsys p re = ([], Some e)"
proof -
  obtain dat where r: "ReadAll maxFileSize f = (dat, Some e)"
    using assms(2) by (cases "ReadAll maxFileSize f") simp
  show ?thesis using assms(1) r by (simp add: searchFile_def)
qed

lemma searchFile_cases:
  obtains e where "searchFile fsys p re = ([], Some e)"
  | f where "fsys p = Inr f" "snd (ReadAll maxFileSize f) = None"
      "searchFile fsys p re =
         (map (mk_slice p (fst (ReadAll maxFileSize f)))
            (FindAllIndex re (fst (ReadAll maxFileSize f)) (- 1)), None)"
proof (cases "fsys p")
  case (Inl e)
  then have "searchFile fsys p re = ([], Some e)" by (simp add: searchFile_def)
  then show ?thesis by (rule that(1))
next
  case (Inr f)
  show ?thesis
  proof (cases "snd (ReadAll maxFileSize f)")
    case None
    from Inr None searchFile_success [of fsys p f re, OF Inr None] show ?thesis by (rule that(2))
  next
    case (Some e)
    from searchFile_failure [of fsys p f _ re, OF Inr Some] show ?thesis by (rule that(1))
  qed
qed

lemma loc_slice:
  assumes "(a0, a1) \<in> set (FindAllIndex re dat n)" and "length dat \<le> maxFileSize"
  shows "sint (offset (mk_slice p dat (a0, a1))) = int a0
       \<and> length (data (mk_slice p dat (a0, a1))) = a1 - a0
       \<and> a0 \<le> a1 \<and> a1 \<le> length dat"
proof -
  from FindAllIndex_bounds [OF assms(1)] have b: "a0 \<le> a1" "a1 \<le> length dat" by simp_all
  with assms(2) have "a0 \<le> 2 ^ 30" by (simp add: maxFileSize_def)
  then have "a0 < 2 ^ 63" by simp
  then have "sint (offset (mk_slice p dat (a0, a1))) = int a0"
    by (simp add: mk_slice_def sint_of_nat_int64)
  moreover from b have "length (data (mk_slice p dat (a0, a1))) = a1 - a0"
    by (simp add: mk_slice_def slice_def)
  ultimately show ?thesis using b by simp
qed

text \<open>
  Claim C3. The slices returned by \<open>searchFile\<close> are in strictly increasing order of
  offset and no two of them overlap: for any two slices, the earlier one in the list has
  the smaller offset and ends (offset plus length) at or before the offset of the later.
\<close>

theorem searchFile_ascending_disjoint:
  "sorted_wrt (\<lambda>s t. sint (offset s) < sint (offset t)
                   \<and> sint (offset s) + int (length (data s)) \<le> sint (offset t))
     (fst (searchFile fsys p re))"
proof (cases rule: searchFile_cases [of fsys p re])
  case (1 e)
  then show ?thesis by simp
next
  case (2 f)
  define dat where "dat = fst (ReadAll maxFileSize f)"
  have l: "length dat \<le> maxFileSize" unfolding dat_def by (rule ReadAll_length)
  have "sorted_wrt (\<lambda>x y. sint (offset (mk_slice p dat x)) < sint (offset (mk_slice p dat y))
            \<and> sint (offset (mk_slice p dat x)) + int (length (data (mk_slice p dat x)))
                \<le> sint (offset (mk_slice p dat y)))
          (FindAllIndex re dat (- 1))"
  proof (rule sorted_wrt_mono_rel [OF _ FindAllIndex_sorted])
    fix x y
    assume x: "x \<in> set (FindAllIndex re dat (- 1))" and y: "y \<in> set (FindAllIndex re dat (- 1))"
      and d: "disjoint_ascending x y"
    obtain a0 a1 where xa: "x = (a0, a1)" by (cases x)
    obtain b0 b1 where yb: "y = (b0, b1)" by (cases y)
    from loc_slice [OF x [unfolded xa] l, of p] loc_slice [OF y [unfolded yb] l, of p] d
    show "sint (offset (mk_slice p dat x)) < sint (offset (mk_slice p dat y))
            \<and> sint (offset (mk_slice p dat x)) + int (length (data (mk_slice p dat x)))
                \<le> sint (offset (mk_slice p dat y))"
      unfolding xa yb by (simp add: disjoint_ascending_def)
  qed
  then show ?thesis
    unfolding 2(3) dat_def by (simp add: sorted_wrt_map)
qed

theorem searchFile_ascending_disjoint_witness:
  "searchFile demo_fsys ''two.txt'' reRemovedRefs =
     ([\<lparr>path = ''two.txt'', data = ''eeeeeeeeeeeeeeeeeeeeeeeeeeeeeeee-a'', offset = 0\<rparr>,
       \<lparr>path = ''two.txt'', data = ''eeeeeeeeeeeeeeeeeeeeeeeeeeeeeeee-b'', offset = 35\<rparr>], None)
   \<and> sint (0 :: 64 word) < sint (35 :: 64 word)
   \<and> sint (0 :: 64 word) + int (length ''eeeeeeeeeeeeeeeeeeeeeeeeeeeeeeee-a'') \<le> sint (35 :: 64 word)"
proof -
  have s: "searchFile demo_fsys ''two.txt'' reRemovedRefs =
     ([\<lparr>path = ''two.txt'', data = ''eeeeeeeeeeeeeeeeeeeeeeeeeeeeeeee-a'', offset = 0\<rparr>,
       \<lparr>path = ''two.txt'', data = ''eeeeeeeeeeeeeeeeeeeeeeeeeeeeeeee-b'', offset = 35\<rparr>], None)"
    by (simp add: searchFile_def demo_fsys_def ReadAll_def maxFileSize_def demo_two_locs slice_def)
  from searchFile_ascending_disjoint [of demo_fsys "''two.txt''" reRemovedRefs]
  show ?thesis unfolding s by simp
qed

text \<open>
  Claim C10. Every slice returned by \<open>searchFile\<close> for a file that opens carries the
  path searched, has an offset that is not negative, ends within the bytes read from the
  file, and its content is the part of the loaded buffer from its offset on, of its length.
\<close>

theorem searchFile_slices_within_buffer:
  assumes "fsys p = Inr f"
  shows "\<forall>s\<in>set (fst (searchFile fsys p re)).
           path s = p
           \<and> 0 \<le> sint (offset s)
           \<and> sint (offset s) + int (length (data s)) \<le> int (length (fst (ReadAll maxFileSize f)))
           \<and> data s = slice (fst (ReadAll maxFileSize f)) (nat (sint (offset s)))
                         (nat (sint (offset s)) + length (data s))"
proof (cases rule: searchFile_cases [of fsys p re])
  case (1 e)
  then show ?thesis by simp
next
  case (2 g)
  with assms have g: "g = f" by simp
  define dat where "dat = fst (ReadAll maxFileSize f)"
  have l: "length dat \<le> maxFileSize" unfolding dat_def by (rule ReadAll_length)
  have "\<forall>x\<in>set (FindAllIndex re dat (- 1)).
          path (mk_slice p dat x) = p
          \<and> 0 \<le> sint (offset (mk_slice p dat x))
          \<and> sint (offset (mk_slice p dat x)) + int (length (data (mk_slice p dat x)))
              \<le> int (length dat)
          \<and> data (mk_slice p dat x)
              = slice dat (nat (sint (offset (mk_slice p dat x))))
                  (nat (sint (offset (mk_slice p dat x))) + length (data (mk_slice p dat x)))"
  proof
    fix x
    assume x: "x \<in> set (FindAllIndex re dat (- 1))"
    obtain a0 a1 where xa: "x = (a0, a1)" by (cases x)
    from loc_slice [OF x [unfolded xa] l, of p]
    have o: "sint (offset (mk_slice p dat (a0, a1))) = int a0"
      and n: "length (data (mk_slice p dat (a0, a1))) = a1 - a0"
      and b: "a0 \<le> a1" "a1 \<le> length dat" by simp_all
    have d: "data (mk_slice p dat (a0, a1)) = slice dat a0 a1" by (simp add: mk_slice_def)
    have pa: "path (mk_slice p dat (a0, a1)) = p" by (simp add: mk_slice_def)
    show "path (mk_slice p dat x) = p
          \<and> 0 \<le> sint (offset (mk_slice p dat x))
          \<and> sint (offset (mk_slice p dat x)) + int (length (data (mk_slice p dat x)))
              \<le> int (length dat)
          \<and> data (mk_slice p dat x)
              = slice dat (nat (sint (offset (mk_slice p dat x))))
                  (nat (sint (offset (mk_slice p dat x))) + length (data (mk_slice p dat x)))"
      unfolding xa o n pa using b d by simp
  qed
  then show ?thesis unfolding 2(3) g dat_def by simp
qed

theorem searchFile_slices_within_buffer_witness:
  "demo_fsys ''a.txt''
     = Inr \<lparr>contents = ''xeeeeeeeeeeeeeeeeeeeeeeeeeeeeeeee-foo bar'', read_error = None\<rparr>
   \<and> searchFile demo_fsys ''a.txt'' reRemovedRefs
     = ([\<lparr>path = ''a.txt'', data = ''eeeeeeeeeeeeeeeeeeeeeeeeeeeeeeee-foo'', offset = 1\<rparr>], None)
   \<and> sint (1 :: 64 word) + int (length ''eeeeeeeeeeeeeeeeeeeeeeeeeeeeeeee-foo'')
       \<le> int (length ''xeeeeeeeeeeeeeeeeeeeeeeeeeeeeeeee-foo bar'')
   \<and> ''eeeeeeeeeeeeeeeeeeeeeeeeeeeeeeee-foo''
       = slice ''xeeeeeeeeeeeeeeeeeeeeeeeeeeeeeeee-foo bar'' 1 37"
proof -
  have f: "demo_fsys ''a.txt''
     = Inr \<lparr>contents = ''xeeeeeeeeeeeeeeeeeeeeeeeeeeeeeeee-foo bar'', read_error = None\<rparr>"
    by (simp add: demo_fsys_def)
  have s: "searchFile demo_fsys ''a.txt'' reRemovedRefs
     = ([\<lparr>path = ''a.txt'', data = ''eeeeeeeeeeeeeeeeeeeeeeeeeeeeeeee-foo'', offset = 1\<rparr>], None)"
    by (simp add: searchFile_def demo_fsys_def ReadAll_def maxFileSize_def demo_a_locs slice_def)
  have r: "fst (ReadAll maxFileSize
             \<lparr>contents = ''xeeeeeeeeeeeeeeeeeeeeeeeeeeeeeeee-foo bar'', read_error = None\<rparr>)
           = ''xeeeeeeeeeeeeeeeeeeeeeeeeeeeeeeee-foo bar''"
    by (simp add: ReadAll_def maxFileSize_def)
  have e: "''eeeeeeeeeeeeeeeeeeeeeeeeeeeeeeee-foo''
       = slice ''xeeeeeeeeeeeeeeeeeeeeeeeeeeeeeeee-foo bar'' 1 37"
    by (simp add: slice_def)
  let ?x = "\<lparr>path = ''a.txt'', data = ''eeeeeeeeeeeeeeeeeeeeeeeeeeeeeeee-foo'',
              offset = 1 :: 64 word\<rparr>"
  have "?x \<in> set (fst (searchFile demo_fsys ''a.txt'' reRemovedRefs))"
    unfolding s by simp
  with searchFile_slices_within_buffer [of demo_fsys "''a.txt''" _ reRemovedRefs, OF f]
  have "sint (offset ?x) + int (length (data ?x))
          \<le> int (length (fst (ReadAll maxFileSize
                \<lparr>contents = ''xeeeeeeeeeeeeeeeeeeeeeeeeeeeeeeee-foo bar'', read_error = None\<rparr>)))"
    by blast
  then have "sint (1 :: 64 word) + int (length ''eeeeeeeeeeeeeeeeeeeeeeeeeeeeeeee-foo'')
       \<le> int (length ''xeeeeeeeeeeeeeeeeeeeeeeeeeeeeeeee-foo bar'')"
    unfolding r by simp
  with f s e show ?thesis by blast
qed

text \<open>
  Claim C4. For a file of more than \<open>maxFileSize\<close> = 2^30 bytes, \<open>searchFile\<close> returns
  what it returns for the file cut to its first 2^30 bytes, that is the slices of the
  matches in those bytes, and every slice ends at or before byte 2^30: a match beyond
  the ceiling is never returned.
\<close>

theorem searchFile_size_ceiling:
  assumes "fsys p = Inr f" and "maxFileSize < length (contents f)"
  shows "searchFile fsys p re
           = searchFile (fsys(p := Inr \<lparr>contents = take maxFileSize (contents f),
                                       read_error = None\<rparr>)) p re
       \<and> searchFile fsys p re
           = (map (mk_slice p (take maxFileSize (contents f)))
                (FindAllIndex re (take maxFileSize (contents f)) (- 1)), None)
       \<and> (\<forall>s\<in>set (fst (searchFile fsys p re)).
             sint (offset s) + int (length (data s)) \<le> 2 ^ 30)"
proof -
  let ?g = "\<lparr>contents = take maxFileSize (contents f), read_error = None\<rparr>"
  have r: "ReadAll maxFileSize f = (take maxFileSize (contents f), None)"
    using assms(2) by (simp add: ReadAll_def)
  have r': "ReadAll maxFileSize ?g = (take maxFileSize (contents f), None)"
    using assms(2) by (simp add: ReadAll_def)
  have a: "searchFile fsys p re
           = (map (mk_slice p (take maxFileSize (contents f)))
                (FindAllIndex re (take maxFileSize (contents f)) (- 1)), None)"
    using searchFile_success [of fsys p f re] assms(1) r by simp
  have b: "searchFile (fsys(p := Inr ?g)) p re
           = (map (mk_slice p (take maxFileSize (contents f)))
                (FindAllIndex re (take maxFileSize (contents f)) (- 1)), None)"
    using searchFile_success [of "fsys(p := Inr ?g)" p ?g re] r' by simp
  have c: "\<forall>s\<in>set (fst (searchFile fsys p re)).
             sint (offset s) + int (length (data s)) \<le> 2 ^ 30"
  proof
    fix s
    assume "s \<in> set (fst (searchFile fsys p re))"
    then obtain x where x: "x \<in> set (FindAllIndex re (take maxFileSize (contents f)) (- 1))"
      and s: "s = mk_slice p (take maxFileSize (contents f)) x"
      unfolding a by auto
    obtain a0 a1 where xa: "x = (a0, a1)" by (cases x)
    have l: "length (take maxFileSize (contents f)) \<le> maxFileSize" by simp
    from loc_slice [OF x [unfolded xa] l, of p]
    have "sint (offset s) = int a0" "length (data s) = a1 - a0" "a0 \<le> a1"
      "a1 \<le> length (take maxFileSize (contents f))"
      unfolding s xa by simp_all
    with l have "sint (offset s) + int (length (data s)) \<le> int maxFileSize" by simp
    then show "sint (offset s) + int (length (data s)) \<le> 2 ^ 30"
      by (simp add: maxFileSize_def)
  qed
  from a b c show ?thesis by simp
qed

theorem searchFile_size_ceiling_witness:
  "maxFileSize < length (contents big_file)
   \<and> take maxFileSize (contents big_file) = replicate (2 ^ 30) CHR ''x''
   \<and> searchFile (\<lambda>_. Inr big_file) ''big'' reRemovedRefs
       = searchFile ((\<lambda>_. Inr big_file)
           (''big'' := Inr \<lparr>contents = replicate (2 ^ 30) CHR ''x'', read_error = None\<rparr>))
           ''big'' reRemovedRefs"
proof -
  have l: "maxFileSize < length (contents big_file)"
    by (simp add: big_file_def maxFileSize_def)
  have t: "take maxFileSize (contents big_file) = replicate (2 ^ 30) CHR ''x''"
    by (simp add: big_file_def maxFileSize_def)
  from searchFile_size_ceiling [of "\<lambda>_. Inr big_file" "''big''" big_file, OF refl l, of reRemovedRefs]
  show ?thesis using l t by simp
qed



subsection \<open>Properties of searchEnv\<close>

lemma searchEnv_loop_find:
  "searchEnv_loop re vs =
     (case find (\<lambda>v. FindString re v \<noteq> []) vs of None \<Rightarrow> [] | Some v \<Rightarrow> FindString re v)"
  by (induction vs) (simp_all add: Let_def)

lemma Cut_after:
  "fst (snd (Cut e sep)) = drop (Suc (length (takeWhile (\<lambda>c. c \<noteq> sep) e))) e"
proof (cases "sep \<in> set e")
  case True
  have "tl (dropWhile (\<lambda>c. c \<noteq> sep) e) = drop (Suc (length (takeWhile (\<lambda>c. c \<noteq> sep) e))) e"
    by (simp add: dropWhile_eq_drop drop_Suc tl_drop)
  with True show ?thesis by (simp add: Cut_def)
next
  case False
  then have "takeWhile (\<lambda>c. c \<noteq> sep) e = e" by (simp add: takeWhile_eq_all_conv) blast
  then have "drop (Suc (length (takeWhile (\<lambda>c. c \<noteq> sep) e))) e = drop (Suc (length e)) e"
    by (rule arg_cong [where f = "\<lambda>t. drop (Suc (length t)) e"])
  then have "drop (Suc (length (takeWhile (\<lambda>c. c \<noteq> sep) e))) e = []"
    by (simp only: drop_all le_SucI order_refl)
  with False show ?thesis by (simp only: Cut_def if_False fst_conv snd_conv)
qed

lemma envValues_after:
  "envValues environ
     = map (\<lambda>e. drop (Suc (length (takeWhile (\<lambda>c. c \<noteq> CHR ''='') e))) e) environ"
  unfolding envValues_def
  by (rule map_cong [OF refl]) (simp add: Cut_after [symmetric] split: prod.splits)

lemma FindString_None: "doExecute re v 0 = None \<Longrightarrow> FindString re v = []"
  by (simp add: FindString_def)

text \<open>
  Claim C7, as amended. \<open>searchEnv\<close> looks at the values only, each the text after the
  first \<open>=\<close> of its entry (empty when there is none), in the order of the environment,
  and returns the leftmost match of the first value whose leftmost match is not empty,
  or the empty string when there is no such value; in particular it returns the empty
  string when the pattern matches in no value, whatever the names contain.
\<close>

theorem searchEnv_first_nonempty_match:
  "searchEnv re environ
     = (case find (\<lambda>v. FindString re v \<noteq> []) (envValues environ) of
          None \<Rightarrow> [] | Some v \<Rightarrow> FindString re v)
   \<and> envValues environ
     = map (\<lambda>e. drop (Suc (length (takeWhile (\<lambda>c. c \<noteq> CHR ''='') e))) e) environ
   \<and> ((\<forall>v\<in>set (envValues environ). doExecute re v 0 = None) \<longrightarrow> searchEnv re environ = [])"
proof (intro conjI impI)
  show "searchEnv re environ
     = (case find (\<lambda>v. FindString re v \<noteq> []) (envValues environ) of
          None \<Rightarrow> [] | Some v \<Rightarrow> FindString re v)"
    by (simp add: searchEnv_def searchEnv_loop_find)
  show "envValues environ
     = map (\<lambda>e. drop (Suc (length (takeWhile (\<lambda>c. c \<noteq> CHR ''='') e))) e) environ"
    by (rule envValues_after)
  assume "\<forall>v\<in>set (envValues environ). doExecute re v 0 = None"
  then have "\<forall>v\<in>set (envValues environ). FindString re v = []"
    by (simp add: FindString_None)
  then have "find (\<lambda>v. FindString re v \<noteq> []) (envValues environ) = None"
    by (simp add: find_None_iff)
  then show "searchEnv re environ = []"
    by (simp add: searchEnv_def searchEnv_loop_find)
qed

lemma demo_environ_values: "envValues demo_environ = [''plain'', [], ''/root'']"
  by (simp add: demo_environ_def envValues_def Cut_def)

lemma demo_environ_no_match:
  "doExecute reRemovedRefs ''plain'' 0 = None
   \<and> doExecute reRemovedRefs [] 0 = None
   \<and> doExecute reRemovedRefs ''/root'' 0 = None"
  by code_simp

theorem searchEnv_first_nonempty_match_witness:
  "envValues demo_environ = [''plain'', [], ''/root'']
   \<and> searchEnv reRemovedRefs demo_environ = []"
proof -
  have "\<forall>v\<in>set (envValues demo_environ). doExecute reRemovedRefs v 0 = None"
    unfolding demo_environ_values using demo_environ_no_match by simp
  with searchEnv_first_nonempty_match [of reRemovedRefs demo_environ]
  have "searchEnv reRemovedRefs demo_environ = []" by blast
  with demo_environ_values show ?thesis by simp
qed

text \<open>
  Claim C7 says that \<open>searchEnv\<close> returns the first matching substring found. With the
  pattern \<open>a*\<close> and the environment \<open>X=b\<close>, \<open>Y=aa\<close> the first value that matches is
  \<open>b\<close>, by the empty match at its start; line 80 passes over a match that is empty,
  and the call returns \<open>aa\<close>, from the second value.
\<close>

theorem searchEnv_empty_match_counterexample:
  "find (\<lambda>v. doExecute (Star (Literal 0x61)) v 0 \<noteq> None) (envValues [''X=b'', ''Y=aa''])
     = Some ''b''
   \<and> doExecute (Star (Literal 0x61)) ''b'' 0 = Some (0, 0)
   \<and> FindString (Star (Literal 0x61)) ''b'' = []
   \<and> searchEnv (Star (Literal 0x61)) [''X=b'', ''Y=aa''] = ''aa''"
  by code_simp

subsection \<open>Properties of reRemovedRefs\<close>

lemma and_low_bits:
  "(x::int) AND 0x1F = x mod 32" "(x::int) AND 0x0F = x mod 16"
  "(x::int) AND 0x07 = x mod 8" "(x::int) AND 0x3F = x mod 64"
proof -
  have m: "(0x1F::int) = mask 5" "(0x0F::int) = mask 4" "(0x07::int) = mask 3" "(0x3F::int) = mask 6"
    by (simp_all add: mask_eq_exp_minus_1)
  show "(x::int) AND 0x1F = x mod 32" "(x::int) AND 0x0F = x mod 16"
    "(x::int) AND 0x07 = x mod 8" "(x::int) AND 0x3F = x mod 64"
    unfolding m by (simp_all add: take_bit_eq_mask [symmetric] take_bit_eq_mod)
qed

lemma or_ge_left: "0 \<le> (l::int) \<Longrightarrow> k \<le> k OR l"
  by (rule or_greater_eq)

lemma or_ge_right: "0 \<le> (k::int) \<Longrightarrow> l \<le> k OR l"
  using or_greater_eq [of k l] by (simp add: or.commute)

lemma or_nonneg: "0 \<le> (k::int) \<Longrightarrow> 0 \<le> l \<Longrightarrow> 0 \<le> k OR l"
  by simp

lemma decode2_ge:
  assumes "0xC2 \<le> (p0::int)" "p0 \<le> 0xDF"
  shows "0x80 \<le> push_bit 6 (p0 AND 0x1F) OR (b1 AND 0x3F)"
proof -
  from assms have "2 \<le> p0 mod 32" by presburger
  then have "0x80 \<le> push_bit 6 (p0 AND 0x1F)" by (simp add: and_low_bits push_bit_eq_mult)
  also have "\<dots> \<le> push_bit 6 (p0 AND 0x1F) OR (b1 AND 0x3F)"
    by (rule or_ge_left) (simp add: and_low_bits)
  finally show ?thesis .
qed

lemma nonneg_fields:
  "0 \<le> (x::int) AND 0x3F" "0 \<le> push_bit n ((x::int) AND 0x3F)"
  "0 \<le> push_bit n ((x::int) AND 0x0F)" "0 \<le> push_bit n ((x::int) AND 0x07)"
  by (simp_all add: and_low_bits)

lemma decode3_ge:
  assumes "0xE0 \<le> (p0::int)" "p0 \<le> 0xEF" "p0 = 0xE0 \<longrightarrow> 0xA0 \<le> b1" "0x80 \<le> (b1::int)" "b1 \<le> 0xBF"
  shows "0x80 \<le> push_bit 12 (p0 AND 0x0F) OR (push_bit 6 (b1 AND 0x3F) OR (b2 AND 0x3F))"
proof (cases "p0 = 0xE0")
  case True
  with assms have "32 \<le> b1 mod 64" by presburger
  then have "0x80 \<le> push_bit 6 (b1 AND 0x3F)" by (simp add: and_low_bits push_bit_eq_mult)
  also have "\<dots> \<le> push_bit 6 (b1 AND 0x3F) OR (b2 AND 0x3F)"
    by (rule or_ge_left) (rule nonneg_fields)
  also have "\<dots> \<le> push_bit 12 (p0 AND 0x0F) OR (push_bit 6 (b1 AND 0x3F) OR (b2 AND 0x3F))"
    by (rule or_ge_right) (rule nonneg_fields)
  finally show ?thesis .
next
  case False
  with assms have "1 \<le> p0 mod 16" by presburger
  then have "0x80 \<le> push_bit 12 (p0 AND 0x0F)" by (simp add: and_low_bits push_bit_eq_mult)
  also have "\<dots> \<le> push_bit 12 (p0 AND 0x0F) OR (push_bit 6 (b1 AND 0x3F) OR (b2 AND 0x3F))"
    by (rule or_ge_left) (simp add: nonneg_fields)
  finally show ?thesis .
qed

lemma decode4_ge:
  assumes "0xF0 \<le> (p0::int)" "p0 \<le> 0xF4" "p0 = 0xF0 \<longrightarrow> 0x90 \<le> b1" "0x80 \<le> (b1::int)" "b1 \<le> 0xBF"
  shows "0x80 \<le> push_bit 18 (p0 AND 0x07)
                  OR (push_bit 12 (b1 AND 0x3F) OR (push_bit 6 (b2 AND 0x3F) OR (b3 AND 0x3F)))"
proof (cases "p0 = 0xF0")
  case True
  with assms have "16 \<le> b1 mod 64" by presburger
  then have "0x80 \<le> push_bit 12 (b1 AND 0x3F)" by (simp add: and_low_bits push_bit_eq_mult)
  also have "\<dots> \<le> push_bit 12 (b1 AND 0x3F) OR (push_bit 6 (b2 AND 0x3F) OR (b3 AND 0x3F))"
    by (rule or_ge_left) (simp add: nonneg_fields)
  also have "\<dots> \<le> push_bit 18 (p0 AND 0x07)
                  OR (push_bit 12 (b1 AND 0x3F) OR (push_bit 6 (b2 AND 0x3F) OR (b3 AND 0x3F)))"
    by (rule or_ge_right) (rule nonneg_fields)
  finally show ?thesis .
next
  case False
  with assms have "1 \<le> p0 mod 8" by presburger
  then have "0x80 \<le> push_bit 18 (p0 AND 0x07)" by (simp add: and_low_bits push_bit_eq_mult)
  also have "\<dots> \<le> push_bit 18 (p0 AND 0x07)
                  OR (push_bit 12 (b1 AND 0x3F) OR (push_bit 6 (b2 AND 0x3F) OR (b3 AND 0x3F)))"
    by (rule or_ge_left) (simp add: nonneg_fields)
  finally show ?thesis .
qed

lemma first_byte_Lead_range:
  "first_byte b = Lead sz lo hi
     \<Longrightarrow> (sz = 2 \<longrightarrow> b \<le> 0xDF)
       \<and> (sz = 3 \<longrightarrow> 0xE0 \<le> b \<and> b \<le> 0xEF \<and> (b = 0xE0 \<longrightarrow> 0xA0 \<le> lo))
       \<and> (sz = 4 \<longrightarrow> 0xF0 \<le> b \<and> (b = 0xF0 \<longrightarrow> 0x90 \<le> lo))"
  by (simp add: first_byte_def split: if_splits)

lemma DecodeRune_non_ascii:
  assumes "p \<noteq> []" and "0x80 \<le> (of_char (p ! 0) :: int)" and "DecodeRune p = (r, w)"
  shows "0x80 \<le> r \<and> (\<forall>k. 0 < k \<and> k < w \<longrightarrow> 0x80 \<le> (of_char (p ! k) :: int))"
proof -
  from assms(1) have l: "\<not> length p < 1" by (cases p) simp_all
  define p0 :: int where "p0 = of_char (p ! 0)"
  define b1 :: int where "b1 = of_char (p ! 1)"
  define b2 :: int where "b2 = of_char (p ! 2)"
  define b3 :: int where "b3 = of_char (p ! 3)"
  show ?thesis
  proof (cases "first_byte p0")
    case Invalid
    with assms(3) l show ?thesis by (simp add: DecodeRune_def RuneError_def p0_def)
  next
    case Ascii
    with assms(2) show ?thesis by (simp add: first_byte_def p0_def split: if_splits)
  next
    case (Lead sz lo hi)
    from first_byte_Lead [OF this]
    have sz: "2 \<le> sz" "sz \<le> 4" and lo: "0x80 \<le> lo" and hi: "hi \<le> 0xBF"
      and r0: "0xC2 \<le> p0" "p0 \<le> 0xF4" by simp_all
    note rg = first_byte_Lead_range [OF Lead]
    from sz consider "sz = 2" | "sz = 3" | "sz = 4" by linarith
    then show ?thesis
    proof cases
      case 1
      let ?v = "push_bit 6 (p0 AND 0x1F) OR (b1 AND 0x3F)"
      have "DecodeRune p =
          (if length p < 2 then (RuneError, 1)
           else if b1 < lo \<or> hi < b1 then (RuneError, 1) else (?v, 2))"
        using Lead l 1 by (simp add: DecodeRune_def Let_def p0_def b1_def)
      with assms(3) consider "r = RuneError" "w = 1" | "r = ?v" "w = 2" "lo \<le> b1"
        by (auto split: if_splits)
      then show ?thesis
      proof cases
        case 1
        then show ?thesis by (simp add: RuneError_def)
      next
        case 2
        from rg \<open>sz = 2\<close> r0 have "0x80 \<le> ?v" by (intro decode2_ge) auto
        moreover have "\<forall>k. 0 < k \<and> k < w \<longrightarrow> 0x80 \<le> (of_char (p ! k) :: int)"
        proof (intro allI impI)
          fix k assume "0 < k \<and> k < w"
          with 2 have "k = 1" by simp
          with 2 lo show "0x80 \<le> (of_char (p ! k) :: int)" by (simp add: b1_def)
        qed
        ultimately show ?thesis using 2 by simp
      qed
    next
      case 2
      let ?v = "push_bit 12 (p0 AND 0x0F) OR (push_bit 6 (b1 AND 0x3F) OR (b2 AND 0x3F))"
      have "DecodeRune p =
          (if length p < 3 then (RuneError, 1)
           else if b1 < lo \<or> hi < b1 then (RuneError, 1)
           else if b2 < 0x80 \<or> 0xBF < b2 then (RuneError, 1) else (?v, 3))"
        using Lead l 2 by (simp add: DecodeRune_def Let_def p0_def b1_def b2_def)
      with assms(3) consider "r = RuneError" "w = 1"
        | "r = ?v" "w = 3" "lo \<le> b1" "b1 \<le> hi" "0x80 \<le> b2"
        by (auto split: if_splits)
      then show ?thesis
      proof cases
        case 1
        then show ?thesis by (simp add: RuneError_def)
      next
        case c: 2
        from rg \<open>sz = 3\<close> c lo hi have "0x80 \<le> ?v" by (intro decode3_ge) auto
        moreover have "\<forall>k. 0 < k \<and> k < w \<longrightarrow> 0x80 \<le> (of_char (p ! k) :: int)"
        proof (intro allI impI)
          fix k assume "0 < k \<and> k < w"
          with c have "k = 1 \<or> k = 2" by auto
          with c lo show "0x80 \<le> (of_char (p ! k) :: int)" by (auto simp: b1_def b2_def)
        qed
        ultimately show ?thesis using c by simp
      qed
    next
      case 3
      let ?v = "push_bit 18 (p0 AND 0x07)
                  OR (push_bit 12 (b1 AND 0x3F) OR (push_bit 6 (b2 AND 0x3F) OR (b3 AND 0x3F)))"
      have "DecodeRune p =
          (if length p < 4 then (RuneError, 1)
           else if b1 < lo \<or> hi < b1 then (RuneError, 1)
           else if b2 < 0x80 \<or> 0xBF < b2 then (RuneError, 1)
           else if b3 < 0x80 \<or> 0xBF < b3 then (RuneError, 1) else (?v, 4))"
        using Lead l 3 by (simp add: DecodeRune_def Let_def p0_def b1_def b2_def b3_def)
      with assms(3) consider "r = RuneError" "w = 1"
        | "r = ?v" "w = 4" "lo \<le> b1" "b1 \<le> hi" "0x80 \<le> b2" "0x80 \<le> b3"
        by (auto split: if_splits)
      then show ?thesis
      proof cases
        case 1
        then show ?thesis by (simp add: RuneError_def)
      next
        case c: 2
        from rg \<open>sz = 4\<close> c lo hi r0 have "0x80 \<le> ?v" by (intro decode4_ge) auto
        moreover have "\<forall>k. 0 < k \<and> k < w \<longrightarrow> 0x80 \<le> (of_char (p ! k) :: int)"
        proof (intro allI impI)
          fix k assume "0 < k \<and> k < w"
          with c have "k = 1 \<or> k = 2 \<or> k = 3" by auto
          with c lo show "0x80 \<le> (of_char (p ! k) :: int)" by (auto simp: b1_def b2_def b3_def)
        qed
        ultimately show ?thesis using c by simp
      qed
    qed
  qed
qed

lemma step_ascii:
  "i < length s \<Longrightarrow> (of_char (s ! i) :: int) < 0x80 \<Longrightarrow> step s i = (of_char (s ! i), 1)"
  by (simp add: step_def)

lemma step_non_ascii:
  assumes "i < length s" and "0x80 \<le> (of_char (s ! i) :: int)" and "step s i = (r, w)"
  shows "0x80 \<le> r \<and> 0 < w \<and> i + w \<le> length s
       \<and> (\<forall>k. i < k \<and> k < i + w \<longrightarrow> 0x80 \<le> (of_char (s ! k) :: int))"
proof -
  from assms have d: "DecodeRune (drop i s) = (r, w)" by (simp add: step_def)
  from assms(1) have ne: "drop i s \<noteq> []" by simp
  from assms(1,2) have h: "0x80 \<le> (of_char (drop i s ! 0) :: int)" by simp
  from DecodeRune_non_ascii [OF ne h d]
  have r: "0x80 \<le> r" and c: "\<forall>k. 0 < k \<and> k < w \<longrightarrow> 0x80 \<le> (of_char (drop i s ! k) :: int)"
    by simp_all
  from DecodeRune_width [of "drop i s"] d ne have w: "0 < w" "i + w \<le> length s"
    using assms(1) by auto
  have "\<forall>k. i < k \<and> k < i + w \<longrightarrow> 0x80 \<le> (of_char (s ! k) :: int)"
  proof (intro allI impI)
    fix k assume k: "i < k \<and> k < i + w"
    then have "0 < k - i \<and> k - i < w" by linarith
    with c have "0x80 \<le> (of_char (drop i s ! (k - i)) :: int)" by blast
    moreover from k w have "drop i s ! (k - i) = s ! k" by simp
    ultimately show "0x80 \<le> (of_char (s ! k) :: int)" by simp
  qed
  with r w show ?thesis by simp
qed

lemma ends_Literal_ascii:
  assumes "0 \<le> c" "c < 0x80"
  shows "ends (Literal c) s i
           = (if i < length s \<and> of_char (s ! i) = c then [Suc i] else [])"
proof (cases "i < length s")
  case False
  then show ?thesis by (simp add: step_def)
next
  case True
  show ?thesis
  proof (cases "(of_char (s ! i) :: int) < 0x80")
    case a: True
    from step_ascii [OF True a] True show ?thesis by auto
  next
    case False
    obtain r w where st: "step s i = (r, w)" by (cases "step s i")
    from False have "0x80 \<le> (of_char (s ! i) :: int)" by simp
    from step_non_ascii [OF True this st] have "0x80 \<le> r" by simp
    with assms False st show ?thesis by auto
  qed
qed

lemma name_byte_high: "0x80 \<le> (of_char c :: int) \<Longrightarrow> name_byte c"
  by (auto simp: name_byte_def excluded_def)

lemma rune_high_not_excluded: "0x80 \<le> r \<Longrightarrow> r \<notin> set excluded"
  by (auto simp: excluded_def)

lemma ends_class:
  assumes "i < length s"
  shows "\<exists>w. 0 < w \<and> i + w \<le> length s
           \<and> ends (CharClass True excluded) s i = (if name_byte (s ! i) then [i + w] else [])
           \<and> (\<forall>k. i < k \<and> k < i + w \<longrightarrow> name_byte (s ! k))"
proof (cases "(of_char (s ! i) :: int) < 0x80")
  case True
  from step_ascii [OF assms True] assms show ?thesis
    by (intro exI [of _ 1]) (auto simp: name_byte_def)
next
  case False
  obtain r w where st: "step s i = (r, w)" by (cases "step s i")
  from False have h: "0x80 \<le> (of_char (s ! i) :: int)" by simp
  from step_non_ascii [OF assms h st]
  have r: "0x80 \<le> r" and w: "0 < w" "i + w \<le> length s"
    and c: "\<forall>k. i < k \<and> k < i + w \<longrightarrow> 0x80 \<le> (of_char (s ! k) :: int)" by simp_all
  from r have "r \<notin> set excluded" by (rule rune_high_not_excluded)
  with st w have "ends (CharClass True excluded) s i = [i + w]" by simp
  moreover from h have "name_byte (s ! i)" by (rule name_byte_high)
  moreover from c have "\<forall>k. i < k \<and> k < i + w \<longrightarrow> name_byte (s ! k)"
    by (simp add: name_byte_high)
  ultimately show ?thesis using w by (intro exI [of _ w]) simp
qed

lemma ends_class_end: "ends (CharClass True excluded) s (length s) = []"
  by (simp add: step_def)

lemma star_class:
  "i \<le> length s \<Longrightarrow> length s - i \<le> n
     \<Longrightarrow> length s \<in> set (star_ends (ends (CharClass True excluded) s) n i)
         \<longleftrightarrow> (\<forall>k. i \<le> k \<and> k < length s \<longrightarrow> name_byte (s ! k))"
proof (induction n arbitrary: i)
  case 0
  then show ?case by auto
next
  case (Suc n)
  show ?case
  proof (cases "i = length s")
    case True
    then have "ends (CharClass True excluded) s i = []" using ends_class_end by simp
    then have "star_ends (ends (CharClass True excluded) s) (Suc n) i = [i]"
      by (simp del: ends.simps)
    with True show ?thesis by (auto simp del: ends.simps)
  next
    case False
    with Suc.prems have il: "i < length s" by simp
    from ends_class [OF il] obtain w where w: "0 < w" "i + w \<le> length s"
      and e: "ends (CharClass True excluded) s i = (if name_byte (s ! i) then [i + w] else [])"
      and c: "\<forall>k. i < k \<and> k < i + w \<longrightarrow> name_byte (s ! k)" by blast
    show ?thesis
    proof (cases "name_byte (s ! i)")
      case nb: False
      with e False have "length s \<notin> set (star_ends (ends (CharClass True excluded) s) (Suc n) i)"
        by (simp del: ends.simps)
      moreover from nb il have "\<not> (\<forall>k. i \<le> k \<and> k < length s \<longrightarrow> name_byte (s ! k))"
        by auto
      ultimately show ?thesis by blast
    next
      case nb: True
      from w Suc.prems have p: "i + w \<le> length s" "length s - (i + w) \<le> n" by simp_all
      from nb e w False
      have "length s \<in> set (star_ends (ends (CharClass True excluded) s) (Suc n) i)
          \<longleftrightarrow> length s \<in> set (star_ends (ends (CharClass True excluded) s) n (i + w))"
        by (simp del: ends.simps)
      also have "\<dots> \<longleftrightarrow> (\<forall>k. i + w \<le> k \<and> k < length s \<longrightarrow> name_byte (s ! k))"
        by (rule Suc.IH [OF p])
      also have "\<dots> \<longleftrightarrow> (\<forall>k. i \<le> k \<and> k < length s \<longrightarrow> name_byte (s ! k))"
      proof
        assume a: "\<forall>k. i + w \<le> k \<and> k < length s \<longrightarrow> name_byte (s ! k)"
        show "\<forall>k. i \<le> k \<and> k < length s \<longrightarrow> name_byte (s ! k)"
        proof (intro allI impI)
          fix k assume k: "i \<le> k \<and> k < length s"
          then consider "k = i" | "i < k \<and> k < i + w" | "i + w \<le> k \<and> k < length s"
            by linarith
          then show "name_byte (s ! k)" using nb c a by cases auto
        qed
      next
        assume "\<forall>k. i \<le> k \<and> k < length s \<longrightarrow> name_byte (s ! k)"
        then show "\<forall>k. i + w \<le> k \<and> k < length s \<longrightarrow> name_byte (s ! k)" by simp
      qed
      finally show ?thesis .
    qed
  qed
qed

lemma plus_class:
  assumes "i \<le> length s"
  shows "length s \<in> set (ends (Plus (CharClass True excluded)) s i)
         \<longleftrightarrow> i < length s \<and> (\<forall>k. i \<le> k \<and> k < length s \<longrightarrow> name_byte (s ! k))"
proof (cases "i = length s")
  case True
  then have "ends (CharClass True excluded) s i = []" using ends_class_end by simp
  then have "ends (Plus (CharClass True excluded)) s i = []"
    by (simp del: ends.simps(3))
  with True show ?thesis by (simp del: ends.simps)
next
  case False
  with assms have il: "i < length s" by simp
  from ends_class [OF il] obtain w where w: "0 < w" "i + w \<le> length s"
    and e: "ends (CharClass True excluded) s i = (if name_byte (s ! i) then [i + w] else [])"
    and c: "\<forall>k. i < k \<and> k < i + w \<longrightarrow> name_byte (s ! k)" by blast
  show ?thesis
  proof (cases "name_byte (s ! i)")
    case nb: False
    with e have "length s \<notin> set (ends (Plus (CharClass True excluded)) s i)"
      by (simp del: ends.simps(3))
    moreover from nb il have "\<not> (\<forall>k. i \<le> k \<and> k < length s \<longrightarrow> name_byte (s ! k))" by auto
    ultimately show ?thesis by blast
  next
    case nb: True
    from nb e have "length s \<in> set (ends (Plus (CharClass True excluded)) s i)
        \<longleftrightarrow> length s \<in> set (star_ends (ends (CharClass True excluded) s)
                               (length s - (i + w)) (i + w))"
      by (simp del: ends.simps(3))
    also have "\<dots> \<longleftrightarrow> (\<forall>k. i + w \<le> k \<and> k < length s \<longrightarrow> name_byte (s ! k))"
      by (rule star_class [OF w(2)]) simp
    also have "\<dots> \<longleftrightarrow> (\<forall>k. i \<le> k \<and> k < length s \<longrightarrow> name_byte (s ! k))"
    proof
      assume a: "\<forall>k. i + w \<le> k \<and> k < length s \<longrightarrow> name_byte (s ! k)"
      show "\<forall>k. i \<le> k \<and> k < length s \<longrightarrow> name_byte (s ! k)"
      proof (intro allI impI)
        fix k assume k: "i \<le> k \<and> k < length s"
        then consider "k = i" | "i < k \<and> k < i + w" | "i + w \<le> k \<and> k < length s"
          by linarith
        then show "name_byte (s ! k)" using nb c a by cases auto
      qed
    next
      assume "\<forall>k. i \<le> k \<and> k < length s \<longrightarrow> name_byte (s ! k)"
      then show "\<forall>k. i + w \<le> k \<and> k < length s \<longrightarrow> name_byte (s ! k)" by simp
    qed
    finally show ?thesis using il by blast
  qed
qed

lemma repeat_empty:
  fixes f :: "nat \<Rightarrow> nat list"
  shows "((\<lambda>js. concat (map f js)) ^^ n) [] = []"
proof (induction n)
  case 0
  show ?case by simp
next
  case (Suc n)
  have "((\<lambda>js. concat (map f js)) ^^ Suc n) [] = ((\<lambda>js. concat (map f js)) ^^ n) (concat (map f []))"
    by (simp only: funpow_Suc_right o_apply)
  also have "\<dots> = ((\<lambda>js. concat (map f js)) ^^ n) []" by simp
  finally show ?case using Suc.IH by simp
qed

lemma repeat_literal:
  assumes "0 \<le> c" "c < 0x80"
  shows "i \<le> length s \<Longrightarrow>
         ((\<lambda>js. concat (map (ends (Literal c) s) js)) ^^ n) [i]
           = (if i + n \<le> length s \<and> (\<forall>k<n. of_char (s ! (i + k)) = c) then [i + n] else [])"
proof (induction n arbitrary: i)
  case 0
  then show ?case by simp
next
  case (Suc n)
  let ?F = "\<lambda>js. concat (map (ends (Literal c) s) js)"
  have "(?F ^^ Suc n) [i] = (?F ^^ n) (concat (map (ends (Literal c) s) [i]))"
    by (simp only: funpow_Suc_right o_apply)
  also have "concat (map (ends (Literal c) s) [i]) = ends (Literal c) s i"
    by (simp del: ends.simps)
  finally have u: "(?F ^^ Suc n) [i] = (?F ^^ n) (ends (Literal c) s i)" .
  note e = ends_Literal_ascii [OF assms, of s i]
  show ?case
  proof (cases "i < length s \<and> of_char (s ! i) = c")
    case False
    with e have "ends (Literal c) s i = []" by (simp del: ends.simps)
    then have "(?F ^^ Suc n) [i] = []" by (simp only: u repeat_empty)
    moreover have "\<not> (i + Suc n \<le> length s \<and> (\<forall>k<Suc n. of_char (s ! (i + k)) = c))"
    proof
      assume a: "i + Suc n \<le> length s \<and> (\<forall>k<Suc n. of_char (s ! (i + k)) = c)"
      then have "i < length s" by simp
      moreover from a have "of_char (s ! (i + 0)) = c" by blast
      ultimately show False using False by simp
    qed
    ultimately show ?thesis by (simp only: if_False)
  next
    case True
    with e have "ends (Literal c) s i = [Suc i]" by (simp del: ends.simps)
    then have "(?F ^^ Suc n) [i] = (?F ^^ n) [Suc i]" by (simp only: u)
    also have "\<dots> = (if Suc i + n \<le> length s \<and> (\<forall>k<n. of_char (s ! (Suc i + k)) = c)
                     then [Suc i + n] else [])"
      using True by (intro Suc.IH) simp
    also have "\<dots> = (if i + Suc n \<le> length s \<and> (\<forall>k<Suc n. of_char (s ! (i + k)) = c)
                     then [i + Suc n] else [])"
    proof -
      have "(\<forall>k<Suc n. of_char (s ! (i + k)) = c) \<longleftrightarrow> (\<forall>k<n. of_char (s ! (Suc i + k)) = c)"
        using True by (auto simp: less_Suc_eq_0_disj)
      then show ?thesis by simp
    qed
    finally show ?thesis .
  qed
qed

lemma ends_Concat_none: "ends x s i = [] \<Longrightarrow> ends (Concat x y) s i = []"
  by (simp del: ends.simps add: ends.simps(4))

lemma ends_Concat_single: "ends x s i = [k] \<Longrightarrow> ends (Concat x y) s i = ends y s k"
  by (simp del: ends.simps add: ends.simps(4))

lemma ends_Repeat_funpow:
  "ends (Repeat n x) s i = ((\<lambda>js. concat (map (ends x s) js)) ^^ n) [i]"
  by (simp only: ends.simps)

lemma ends_reRemovedRefs:
  "length s \<in> set (ends reRemovedRefs s 0)
     \<longleftrightarrow> 33 < length s
         \<and> (\<forall>k<32. (of_char (s ! k) :: int) = 0x65)
         \<and> (of_char (s ! 32) :: int) = 0x2D
         \<and> (\<forall>k. 33 \<le> k \<and> k < length s \<longrightarrow> name_byte (s ! k))"
proof -
  let ?tail = "Concat (Literal 0x2D) (Plus (CharClass True excluded))"
  have r: "ends (Repeat 32 (Literal 0x65)) s 0
             = (if 32 \<le> length s \<and> (\<forall>k<32. of_char (s ! k) = (0x65::int)) then [32] else [])"
    unfolding ends_Repeat_funpow
    using repeat_literal [where c = "0x65" and s = s and n = 32 and i = 0]
    by (simp del: ends.simps)
  have l: "ends (Literal 0x2D) s 32
             = (if 32 < length s \<and> of_char (s ! 32) = (0x2D::int) then [33] else [])"
    using ends_Literal_ascii [where c = "0x2D" and s = s and i = 32] by (simp del: ends.simps)
  show ?thesis
  proof (cases "32 \<le> length s \<and> (\<forall>k<32. of_char (s ! k) = (0x65::int))")
    case False
    with r have "ends (Repeat 32 (Literal 0x65)) s 0 = []" by (simp del: ends.simps)
    then have "ends reRemovedRefs s 0 = []"
      unfolding reRemovedRefs_def by (rule ends_Concat_none)
    with False show ?thesis by auto
  next
    case a: True
    with r have "ends (Repeat 32 (Literal 0x65)) s 0 = [32]" by (simp del: ends.simps)
    then have t: "ends reRemovedRefs s 0 = ends ?tail s 32"
      unfolding reRemovedRefs_def by (rule ends_Concat_single)
    show ?thesis
    proof (cases "32 < length s \<and> of_char (s ! 32) = (0x2D::int)")
      case False
      with l have "ends (Literal 0x2D) s 32 = []" by (simp del: ends.simps)
      then have "ends ?tail s 32 = []" by (rule ends_Concat_none)
      with t have "ends reRemovedRefs s 0 = []" by simp
      with False show ?thesis by auto
    next
      case b: True
      with l have "ends (Literal 0x2D) s 32 = [33]" by (simp del: ends.simps)
      then have "ends ?tail s 32 = ends (Plus (CharClass True excluded)) s 33"
        by (rule ends_Concat_single)
      with t have "ends reRemovedRefs s 0 = ends (Plus (CharClass True excluded)) s 33" by simp
      moreover from b have "33 \<le> length s" by simp
      ultimately have "length s \<in> set (ends reRemovedRefs s 0)
          \<longleftrightarrow> 33 < length s \<and> (\<forall>k. 33 \<le> k \<and> k < length s \<longrightarrow> name_byte (s ! k))"
        using plus_class [of 33 s] by (simp del: ends.simps)
      with a b show ?thesis by blast
    qed
  qed
qed

lemma of_char_e: "(of_char c :: int) = 0x65 \<longleftrightarrow> c = CHR ''e''"
proof
  assume "(of_char c :: int) = 0x65"
  then have "char_of (of_char c :: int) = char_of (0x65 :: int)" by simp
  moreover have "char_of (0x65 :: int) = CHR ''e''" by code_simp
  ultimately show "c = CHR ''e''" by simp
next
  assume "c = CHR ''e''"
  then show "(of_char c :: int) = 0x65" by simp
qed

lemma of_char_hyphen: "(of_char c :: int) = 0x2D \<longleftrightarrow> c = CHR ''-''"
proof
  assume "(of_char c :: int) = 0x2D"
  then have "char_of (of_char c :: int) = char_of (0x2D :: int)" by simp
  moreover have "char_of (0x2D :: int) = CHR ''-''" by code_simp
  ultimately show "c = CHR ''-''" by simp
next
  assume "c = CHR ''-''"
  then show "(of_char c :: int) = 0x2D" by simp
qed

lemma removed_ref_shape:
  "(33 < length s
      \<and> (\<forall>k<32. s ! k = CHR ''e'')
      \<and> s ! 32 = CHR ''-''
      \<and> (\<forall>k. 33 \<le> k \<and> k < length s \<longrightarrow> P (s ! k)))
   \<longleftrightarrow> (\<exists>name. s = replicate 32 CHR ''e'' @ ''-'' @ name \<and> name \<noteq> [] \<and> (\<forall>c\<in>set name. P c))"
proof
  assume a: "33 < length s \<and> (\<forall>k<32. s ! k = CHR ''e'') \<and> s ! 32 = CHR ''-''
      \<and> (\<forall>k. 33 \<le> k \<and> k < length s \<longrightarrow> P (s ! k))"
  then have l: "32 < length s" by simp
  have t: "take 32 s = replicate 32 CHR ''e''"
  proof (rule nth_equalityI)
    show "length (take 32 s) = length (replicate 32 CHR ''e'')" using l by simp
  next
    fix i assume "i < length (take 32 s)"
    then have "i < 32" by simp
    with a show "take 32 s ! i = replicate 32 CHR ''e'' ! i" by simp
  qed
  from id_take_nth_drop [OF l] have "s = take 32 s @ s ! 32 # drop 33 s" by simp
  with t a have s: "s = replicate 32 CHR ''e'' @ ''-'' @ drop 33 s" by simp
  from a have n: "drop 33 s \<noteq> []" by simp
  have "\<forall>c\<in>set (drop 33 s). P c"
  proof
    fix c assume "c \<in> set (drop 33 s)"
    then obtain j where j: "j < length (drop 33 s)" "c = drop 33 s ! j"
      by (auto simp: in_set_conv_nth)
    then have "c = s ! (33 + j)" "33 + j < length s" by simp_all
    with a show "P c" by simp
  qed
  with s n show "\<exists>name. s = replicate 32 CHR ''e'' @ ''-'' @ name \<and> name \<noteq> [] \<and> (\<forall>c\<in>set name. P c)"
    by blast
next
  assume "\<exists>name. s = replicate 32 CHR ''e'' @ ''-'' @ name \<and> name \<noteq> [] \<and> (\<forall>c\<in>set name. P c)"
  then obtain name where s: "s = replicate 32 CHR ''e'' @ ''-'' @ name" and n: "name \<noteq> []"
    and p: "\<forall>c\<in>set name. P c" by blast
  from s n have "33 < length s" by (cases name) simp_all
  moreover have "\<forall>k<32. s ! k = CHR ''e''" unfolding s by (simp add: nth_append)
  moreover have "s ! 32 = CHR ''-''" unfolding s by (simp add: nth_append)
  moreover have "\<forall>k. 33 \<le> k \<and> k < length s \<longrightarrow> P (s ! k)"
  proof (intro allI impI)
    fix k assume k: "33 \<le> k \<and> k < length s"
    then have "s ! k = name ! (k - 33)" "k - 33 < length name"
      unfolding s by (auto simp: nth_append nth_Cons')
    with p show "P (s ! k)" by simp
  qed
  ultimately show "33 < length s \<and> (\<forall>k<32. s ! k = CHR ''e'') \<and> s ! 32 = CHR ''-''
      \<and> (\<forall>k. 33 \<le> k \<and> k < length s \<longrightarrow> P (s ! k))" by blast
qed

lemma star_ends_nonempty: "star_ends f n i \<noteq> []"
  by (cases n) simp_all

lemma takeWhile_run:
  assumes "i + w \<le> length s" and "\<forall>k. i \<le> k \<and> k < i + w \<longrightarrow> P (s ! k)"
  shows "length (takeWhile P (drop i s)) = w + length (takeWhile P (drop (i + w) s))"
proof -
  have d: "drop i s = take w (drop i s) @ drop (i + w) s"
    by (metis append_take_drop_id drop_drop add.commute)
  have a: "\<forall>x\<in>set (take w (drop i s)). P x"
  proof
    fix x assume "x \<in> set (take w (drop i s))"
    then obtain j where j: "j < length (take w (drop i s))" "x = take w (drop i s) ! j"
      by (auto simp: in_set_conv_nth)
    with assms(1) have "j < w" "x = s ! (i + j)" by simp_all
    with assms(2) show "P x" by simp
  qed
  have "takeWhile P (take w (drop i s) @ drop (i + w) s)
               = take w (drop i s) @ takeWhile P (drop (i + w) s)"
    by (rule takeWhile_append2) (use a in blast)
  with d have "takeWhile P (drop i s) = take w (drop i s) @ takeWhile P (drop (i + w) s)"
    by simp
  then have "length (takeWhile P (drop i s))
               = length (take w (drop i s)) + length (takeWhile P (drop (i + w) s))"
    by simp
  with assms(1) show ?thesis by simp
qed

lemma star_class_hd:
  "i \<le> length s \<Longrightarrow> length s - i \<le> n
     \<Longrightarrow> hd (star_ends (ends (CharClass True excluded) s) n i)
           = i + length (takeWhile name_byte (drop i s))"
proof (induction n arbitrary: i)
  case 0
  then show ?case by simp
next
  case (Suc n)
  show ?case
  proof (cases "i = length s")
    case True
    then have "ends (CharClass True excluded) s i = []" using ends_class_end by simp
    then have st: "star_ends (ends (CharClass True excluded) s) (Suc n) i = [i]"
      by (simp del: ends.simps)
    from True have dr: "drop i s = []" by simp
    show ?thesis by (simp only: st dr) simp
  next
    case False
    with Suc.prems have il: "i < length s" by simp
    from ends_class [OF il] obtain w where w: "0 < w" "i + w \<le> length s"
      and e: "ends (CharClass True excluded) s i = (if name_byte (s ! i) then [i + w] else [])"
      and c: "\<forall>k. i < k \<and> k < i + w \<longrightarrow> name_byte (s ! k)" by blast
    from il have d: "drop i s = s ! i # drop (Suc i) s" by (simp add: Cons_nth_drop_Suc)
    show ?thesis
    proof (cases "name_byte (s ! i)")
      case nb: False
      with e have st: "star_ends (ends (CharClass True excluded) s) (Suc n) i = [i]"
        by (simp del: ends.simps)
      from nb d have tw: "takeWhile name_byte (drop i s) = []" by simp
      show ?thesis by (simp only: st tw) simp
    next
      case nb: True
      from w Suc.prems have p: "i + w \<le> length s" "length s - (i + w) \<le> n" by simp_all
      from nb e w
      have "star_ends (ends (CharClass True excluded) s) (Suc n) i
              = star_ends (ends (CharClass True excluded) s) n (i + w) @ [i]"
        by (simp del: ends.simps)
      then have "hd (star_ends (ends (CharClass True excluded) s) (Suc n) i)
              = hd (star_ends (ends (CharClass True excluded) s) n (i + w))"
        by (simp del: ends.simps add: star_ends_nonempty)
      also have "\<dots> = (i + w) + length (takeWhile name_byte (drop (i + w) s))"
        by (rule Suc.IH [OF p])
      also have "\<dots> = i + length (takeWhile name_byte (drop i s))"
      proof -
        have "\<forall>k. i \<le> k \<and> k < i + w \<longrightarrow> name_byte (s ! k)"
        proof (intro allI impI)
          fix k assume "i \<le> k \<and> k < i + w"
          then consider "k = i" | "i < k \<and> k < i + w" by linarith
          then show "name_byte (s ! k)" using nb c by cases auto
        qed
        from takeWhile_run [OF w(2) this] show ?thesis by simp
      qed
      finally show ?thesis .
    qed
  qed
qed

lemma plus_class_hd:
  assumes "i < length s" and "name_byte (s ! i)"
  shows "ends (Plus (CharClass True excluded)) s i \<noteq> []
       \<and> hd (ends (Plus (CharClass True excluded)) s i)
           = i + length (takeWhile name_byte (drop i s))"
proof -
  from ends_class [OF assms(1)] obtain w where w: "0 < w" "i + w \<le> length s"
    and e: "ends (CharClass True excluded) s i = (if name_byte (s ! i) then [i + w] else [])"
    and c: "\<forall>k. i < k \<and> k < i + w \<longrightarrow> name_byte (s ! k)" by blast
  from assms(2) e
  have p: "ends (Plus (CharClass True excluded)) s i
          = star_ends (ends (CharClass True excluded) s) (length s - (i + w)) (i + w)"
    by (simp del: ends.simps(3))
  have "hd (star_ends (ends (CharClass True excluded) s) (length s - (i + w)) (i + w))
          = (i + w) + length (takeWhile name_byte (drop (i + w) s))"
    by (rule star_class_hd [OF w(2)]) simp
  also have "\<dots> = i + length (takeWhile name_byte (drop i s))"
  proof -
    have "\<forall>k. i \<le> k \<and> k < i + w \<longrightarrow> name_byte (s ! k)"
    proof (intro allI impI)
      fix k assume "i \<le> k \<and> k < i + w"
      then consider "k = i" | "i < k \<and> k < i + w" by linarith
      then show "name_byte (s ! k)" using assms(2) c by cases auto
    qed
    from takeWhile_run [OF w(2) this] show ?thesis by simp
  qed
  finally show ?thesis unfolding p by (simp del: ends.simps add: star_ends_nonempty)
qed

lemma FindString_removed_ref:
  assumes n: "name \<noteq> []" and nb: "\<forall>c\<in>set name. name_byte c"
    and r: "rest = [] \<or> \<not> name_byte (hd rest)"
  shows "FindString reRemovedRefs (replicate 32 CHR ''e'' @ ''-'' @ name @ rest)
           = replicate 32 CHR ''e'' @ ''-'' @ name"
proof -
  define s where "s = replicate 32 CHR ''e'' @ ''-'' @ name @ rest"
  have len: "length s = 33 + length name + length rest" by (simp add: s_def)
  have e32: "\<forall>k<32. of_char (s ! k) = (0x65::int)"
    unfolding s_def by (simp add: nth_append)
  have hy: "of_char (s ! 32) = (0x2D::int)" unfolding s_def by (simp add: nth_append)
  have d33: "drop 33 s = name @ rest" unfolding s_def by simp
  from n obtain c cs where name: "name = c # cs" by (cases name) auto
  have s33: "s ! 33 = hd name" unfolding s_def name by (simp add: nth_append)
  from n nb have nb33: "name_byte (s ! 33)" unfolding s33 by (cases name) simp_all
  have l33: "33 < length s" using n len by (cases name) simp_all
  have tw: "takeWhile name_byte (name @ rest) = name"
  proof -
    have "takeWhile name_byte (name @ rest) = name @ takeWhile name_byte rest"
      using nb by (simp add: takeWhile_append2)
    moreover from r have "takeWhile name_byte rest = []" by (cases rest) auto
    ultimately show ?thesis by simp
  qed
  have rp: "ends (Repeat 32 (Literal 0x65)) s 0 = [32]"
    unfolding ends_Repeat_funpow
    using repeat_literal [where c = "0x65" and s = s and n = 32 and i = 0] e32 l33
    by (simp del: ends.simps)
  have lt: "ends (Literal 0x2D) s 32 = [33]"
    using ends_Literal_ascii [where c = "0x2D" and s = s and i = 32] hy l33
    by (simp del: ends.simps)
  have "ends reRemovedRefs s 0
          = ends (Concat (Literal 0x2D) (Plus (CharClass True excluded))) s 32"
    unfolding reRemovedRefs_def using rp by (rule ends_Concat_single)
  also have "\<dots> = ends (Plus (CharClass True excluded)) s 33"
    using lt by (rule ends_Concat_single)
  finally have en: "ends reRemovedRefs s 0 = ends (Plus (CharClass True excluded)) s 33" .
  from plus_class_hd [OF l33 nb33] d33 tw
  have ne: "ends reRemovedRefs s 0 \<noteq> []"
    and h: "hd (ends reRemovedRefs s 0) = 33 + length name"
    unfolding en by simp_all
  have "[0..<Suc (length s)] = 0 # [Suc 0..<Suc (length s)]" by (rule upt_conv_Cons) simp
  then have "find (\<lambda>i. ends reRemovedRefs s i \<noteq> []) [0..<Suc (length s)] = Some 0"
    using ne by (simp del: ends.simps upt_Suc)
  then have "doExecute reRemovedRefs s 0 = Some (0, 33 + length name)"
    using h by (simp add: doExecute_def del: ends.simps upt_Suc)
  then have "FindString reRemovedRefs s = slice s 0 (33 + length name)"
    by (simp add: FindString_def)
  also have "\<dots> = replicate 32 CHR ''e'' @ ''-'' @ name"
    unfolding s_def by (simp add: slice_def)
  finally show ?thesis unfolding s_def .
qed

lemma removed_ref_examples:
  "matches reRemovedRefs ''eeeeeeeeeeeeeeeeeeeeeeeeeeeeeeee-mypkg-1.0''"
  "doExecute reRemovedRefs ''eeeeeeeeeeeeeeeeeeeeeeeeeeeeeee-mypkg-1.0'' 0 = None"
  "FindString reRemovedRefs ''eeeeeeeeeeeeeeeeeeeeeeeeeeeeeeee-mypkg-1.0/bin''
     = ''eeeeeeeeeeeeeeeeeeeeeeeeeeeeeeee-mypkg-1.0''"
  by code_simp+

text \<open>
  Claim C5, as amended. \<open>reRemovedRefs\<close> matches exactly the strings made of 32 bytes
  \<open>e\<close>, a hyphen, and one or more bytes none of which is \<open>$\<close>, \<open>"\<close>, \<open>'\<close>, \<open>{\<close>,
  \<open>}\<close>, \<open>/\<close>, \<open>[\<close>, \<open>]\<close>, space, tab, carriage return or line feed. In a string
  that starts so and goes on, the match found ends where the name ends: at the first
  excluded byte, or at the end of the input. The pattern matches 32 \<open>e\<close>, a hyphen and
  \<open>mypkg-1.0\<close>; it finds no match in the same string with 31 \<open>e\<close>; and its match in
  a string that goes on with \<open>/bin\<close> stops before the \<open>/\<close>.
\<close>

theorem reRemovedRefs_matches_exactly:
  "(matches reRemovedRefs s
      \<longleftrightarrow> (\<exists>name. s = replicate 32 CHR ''e'' @ ''-'' @ name \<and> name \<noteq> []
                   \<and> (\<forall>c\<in>set name. name_byte c)))
   \<and> (name \<noteq> [] \<and> (\<forall>c\<in>set name. name_byte c) \<and> (rest = [] \<or> \<not> name_byte (hd rest))
        \<longrightarrow> FindString reRemovedRefs (replicate 32 CHR ''e'' @ ''-'' @ name @ rest)
              = replicate 32 CHR ''e'' @ ''-'' @ name)
   \<and> matches reRemovedRefs ''eeeeeeeeeeeeeeeeeeeeeeeeeeeeeeee-mypkg-1.0''
   \<and> doExecute reRemovedRefs ''eeeeeeeeeeeeeeeeeeeeeeeeeeeeeee-mypkg-1.0'' 0 = None
   \<and> FindString reRemovedRefs ''eeeeeeeeeeeeeeeeeeeeeeeeeeeeeeee-mypkg-1.0/bin''
       = ''eeeeeeeeeeeeeeeeeeeeeeeeeeeeeeee-mypkg-1.0''"
proof -
  have "matches reRemovedRefs s
      \<longleftrightarrow> 33 < length s \<and> (\<forall>k<32. s ! k = CHR ''e'') \<and> s ! 32 = CHR ''-''
          \<and> (\<forall>k. 33 \<le> k \<and> k < length s \<longrightarrow> name_byte (s ! k))"
    unfolding matches_def ends_reRemovedRefs by (simp only: of_char_e of_char_hyphen)
  then have "matches reRemovedRefs s
      \<longleftrightarrow> (\<exists>name. s = replicate 32 CHR ''e'' @ ''-'' @ name \<and> name \<noteq> []
                   \<and> (\<forall>c\<in>set name. name_byte c))"
    by (simp only: removed_ref_shape)
  moreover have "name \<noteq> [] \<and> (\<forall>c\<in>set name. name_byte c) \<and> (rest = [] \<or> \<not> name_byte (hd rest))
        \<longrightarrow> FindString reRemovedRefs (replicate 32 CHR ''e'' @ ''-'' @ name @ rest)
              = replicate 32 CHR ''e'' @ ''-'' @ name"
    using FindString_removed_ref [of name rest] by blast
  ultimately show ?thesis using removed_ref_examples by blast
qed

theorem reRemovedRefs_matches_exactly_witness:
  "matches reRemovedRefs (replicate 32 CHR ''e'' @ ''-'' @ ''mypkg-1.0'')
   \<and> list_all name_byte ''mypkg-1.0''
   \<and> \<not> matches reRemovedRefs (replicate 32 CHR ''e'' @ ''-'' @ ''my pkg'')
   \<and> \<not> list_all name_byte ''my pkg''
   \<and> \<not> name_byte (hd ''/bin'')
   \<and> FindString reRemovedRefs (replicate 32 CHR ''e'' @ ''-'' @ ''mypkg-1.0'' @ ''/bin'')
       = replicate 32 CHR ''e'' @ ''-'' @ ''mypkg-1.0''"
proof -
  have a: "list_all name_byte ''mypkg-1.0''" by code_simp
  have b: "\<not> list_all name_byte ''my pkg''" by code_simp
  have c: "\<not> name_byte (hd ''/bin'')" by code_simp
  from a have "\<exists>name. replicate 32 CHR ''e'' @ ''-'' @ ''mypkg-1.0''
                  = replicate 32 CHR ''e'' @ ''-'' @ name \<and> name \<noteq> []
                   \<and> (\<forall>c\<in>set name. name_byte c)"
    by (intro exI [of _ "''mypkg-1.0''"]) (simp add: list_all_iff)
  with reRemovedRefs_matches_exactly [of "replicate 32 CHR ''e'' @ ''-'' @ ''mypkg-1.0''"]
  have 1: "matches reRemovedRefs (replicate 32 CHR ''e'' @ ''-'' @ ''mypkg-1.0'')" by blast
  have "\<not> (\<exists>name. replicate 32 CHR ''e'' @ ''-'' @ ''my pkg''
                  = replicate 32 CHR ''e'' @ ''-'' @ name \<and> name \<noteq> []
                   \<and> (\<forall>c\<in>set name. name_byte c))"
    using b by (auto simp: list_all_iff)
  with reRemovedRefs_matches_exactly [of "replicate 32 CHR ''e'' @ ''-'' @ ''my pkg''"]
  have 2: "\<not> matches reRemovedRefs (replicate 32 CHR ''e'' @ ''-'' @ ''my pkg'')" by blast
  from a have "''mypkg-1.0'' \<noteq> [] \<and> (\<forall>c\<in>set ''mypkg-1.0''. name_byte c)"
    by (simp add: list_all_iff)
  with c reRemovedRefs_matches_exactly [of _ "''mypkg-1.0''" "''/bin''"]
  have 3: "FindString reRemovedRefs (replicate 32 CHR ''e'' @ ''-'' @ ''mypkg-1.0'' @ ''/bin'')
       = replicate 32 CHR ''e'' @ ''-'' @ ''mypkg-1.0''" by blast
  from 1 2 3 a b c show ?thesis by blast
qed

text \<open>
  Claim C5 describes the name segment as one or more characters other than path
  separators, whitespace, quotes and braces or brackets. The class of the pattern also
  excludes \<open>$\<close>: the name \<open>a$b\<close> is made of characters the claim allows, and the pattern
  does not match the string; its match ends before the \<open>$\<close>.
\<close>

theorem reRemovedRefs_dollar_counterexample:
  "list_all spec_name_byte ''a$b''
   \<and> \<not> matches reRemovedRefs ''eeeeeeeeeeeeeeeeeeeeeeeeeeeeeeee-a$b''
   \<and> FindString reRemovedRefs ''eeeeeeeeeeeeeeeeeeeeeeeeeeeeeeee-a$b''
       = ''eeeeeeeeeeeeeeeeeeeeeeeeeeeeeeee-a''"
  by code_simp

subsection \<open>Properties of globEscape\<close>

lemma or_disjoint_add:
  fixes x y :: int
  assumes "0 \<le> y" "y < 2 ^ n"
  shows "push_bit n x OR y = push_bit n x + y"
proof -
  from assms have t: "take_bit n y = y" by (simp add: take_bit_int_eq_self)
  have "push_bit n x + y = push_bit n x OR y"
  proof (rule disjunctive_add)
    fix m
    show "\<not> bit (push_bit n x) m \<or> \<not> bit y m"
    proof (cases "m < n")
      case True
      then show ?thesis by (simp add: bit_push_bit_iff)
    next
      case False
      then have "\<not> bit (take_bit n y) m" by (simp add: bit_take_bit_iff)
      then show ?thesis by (simp add: t)
    qed
  qed
  then show ?thesis by simp
qed

lemma const_or:
  fixes t :: int
  shows "0 \<le> t \<Longrightarrow> t < 64 \<Longrightarrow> 0x80 OR t = 128 + t"
    and "0 \<le> t \<Longrightarrow> t < 32 \<Longrightarrow> 0xC0 OR t = 192 + t"
    and "0 \<le> t \<Longrightarrow> t < 16 \<Longrightarrow> 0xE0 OR t = 224 + t"
    and "0 \<le> t \<Longrightarrow> t < 8 \<Longrightarrow> 0xF0 OR t = 240 + t"
proof -
  have c: "(0x80::int) = push_bit 6 2" "(0xC0::int) = push_bit 5 6"
    "(0xE0::int) = push_bit 4 14" "(0xF0::int) = push_bit 3 30"
    by (simp_all add: push_bit_eq_mult)
  show "0 \<le> t \<Longrightarrow> t < 64 \<Longrightarrow> 0x80 OR t = 128 + t"
    unfolding c(1) using or_disjoint_add [of t 6 2] by (simp add: push_bit_eq_mult)
  show "0 \<le> t \<Longrightarrow> t < 32 \<Longrightarrow> 0xC0 OR t = 192 + t"
    unfolding c(2) using or_disjoint_add [of t 5 6] by (simp add: push_bit_eq_mult)
  show "0 \<le> t \<Longrightarrow> t < 16 \<Longrightarrow> 0xE0 OR t = 224 + t"
    unfolding c(3) using or_disjoint_add [of t 4 14] by (simp add: push_bit_eq_mult)
  show "0 \<le> t \<Longrightarrow> t < 8 \<Longrightarrow> 0xF0 OR t = 240 + t"
    unfolding c(4) using or_disjoint_add [of t 3 30] by (simp add: push_bit_eq_mult)
qed

lemma dec2_arith:
  fixes p0 b1 :: int
  shows "push_bit 6 (p0 AND 0x1F) OR (b1 AND 0x3F) = 64 * (p0 mod 32) + b1 mod 64"
  using or_disjoint_add [of "b1 mod 64" 6 "p0 mod 32"]
  by (simp add: and_low_bits push_bit_eq_mult)

lemma dec3_arith:
  fixes p0 b1 b2 :: int
  shows "push_bit 12 (p0 AND 0x0F) OR (push_bit 6 (b1 AND 0x3F) OR (b2 AND 0x3F))
           = 4096 * (p0 mod 16) + 64 * (b1 mod 64) + b2 mod 64"
proof -
  have i: "push_bit 6 (b1 AND 0x3F) OR (b2 AND 0x3F) = 64 * (b1 mod 64) + b2 mod 64"
    using or_disjoint_add [of "b2 mod 64" 6 "b1 mod 64"]
    by (simp add: and_low_bits push_bit_eq_mult)
  have "0 \<le> 64 * (b1 mod 64) + b2 mod 64" "64 * (b1 mod 64) + b2 mod 64 < 2 ^ 12"
    using pos_mod_bound [of 64 b1] pos_mod_bound [of 64 b2]
      pos_mod_sign [of 64 b1] pos_mod_sign [of 64 b2] by simp_all
  from or_disjoint_add [OF this, of "p0 mod 16"] show ?thesis
    unfolding i by (simp add: and_low_bits push_bit_eq_mult)
qed

lemma dec4_arith:
  fixes p0 b1 b2 b3 :: int
  shows "push_bit 18 (p0 AND 0x07)
           OR (push_bit 12 (b1 AND 0x3F) OR (push_bit 6 (b2 AND 0x3F) OR (b3 AND 0x3F)))
           = 262144 * (p0 mod 8) + 4096 * (b1 mod 64) + 64 * (b2 mod 64) + b3 mod 64"
proof -
  have i: "push_bit 12 (b1 AND 0x3F) OR (push_bit 6 (b2 AND 0x3F) OR (b3 AND 0x3F))
        = 4096 * (b1 mod 64) + 64 * (b2 mod 64) + b3 mod 64"
  proof -
    have j: "push_bit 6 (b2 AND 0x3F) OR (b3 AND 0x3F) = 64 * (b2 mod 64) + b3 mod 64"
      using or_disjoint_add [of "b3 mod 64" 6 "b2 mod 64"]
      by (simp add: and_low_bits push_bit_eq_mult)
    have "0 \<le> 64 * (b2 mod 64) + b3 mod 64" "64 * (b2 mod 64) + b3 mod 64 < 2 ^ 12"
      using pos_mod_bound [of 64 b2] pos_mod_bound [of 64 b3]
        pos_mod_sign [of 64 b2] pos_mod_sign [of 64 b3] by simp_all
    from or_disjoint_add [OF this, of "b1 mod 64"] show ?thesis
      unfolding j by (simp add: and_low_bits push_bit_eq_mult)
  qed
  have "0 \<le> 4096 * (b1 mod 64) + 64 * (b2 mod 64) + b3 mod 64"
    "4096 * (b1 mod 64) + 64 * (b2 mod 64) + b3 mod 64 < 2 ^ 18"
    using pos_mod_bound [of 64 b1] pos_mod_bound [of 64 b2] pos_mod_bound [of 64 b3]
      pos_mod_sign [of 64 b1] pos_mod_sign [of 64 b2] pos_mod_sign [of 64 b3] by simp_all
  from or_disjoint_add [OF this, of "p0 mod 8"] show ?thesis
    unfolding i by (simp add: and_low_bits push_bit_eq_mult)
qed

lemma byte_char_of: "byte x = char_of x"
  by (simp add: byte_def)

lemma enc1: "0 \<le> r \<Longrightarrow> r \<le> 0x7F \<Longrightarrow> AppendRune b r = b @ [char_of r]"
  by (simp add: AppendRune_def byte_char_of)

lemma enc2:
  assumes "0x80 \<le> r" "r \<le> 0x7FF"
  shows "AppendRune b r = b @ [char_of (192 + r div 64), char_of (128 + r mod 64)]"
proof -
  from assms have m: "r mod 2 ^ 32 = r" by simp
  from assms have d: "0 \<le> r div 64" "r div 64 < 32" by simp_all
  have "AppendRune b r = b @ [byte (0xC0 OR drop_bit 6 r), byte (0x80 OR (r AND 0x3F))]"
    using assms by (simp add: AppendRune_def Let_def m)
  also have "0xC0 OR drop_bit 6 r = 192 + r div 64"
    using const_or(2) [OF d] by (simp add: drop_bit_eq_div)
  also have "0x80 OR (r AND 0x3F) = 128 + r mod 64"
    using const_or(1) [of "r mod 64"] by (simp add: and_low_bits)
  finally show ?thesis by (simp add: byte_char_of)
qed

lemma enc3:
  assumes "0x800 \<le> r" "r \<le> 0xFFFF" "\<not> (0xD800 \<le> r \<and> r \<le> 0xDFFF)"
  shows "AppendRune b r
           = b @ [char_of (224 + r div 4096), char_of (128 + (r div 64) mod 64),
                  char_of (128 + r mod 64)]"
proof -
  from assms have m: "r mod 2 ^ 32 = r" by simp
  from assms have d: "0 \<le> r div 4096" "r div 4096 < 16" by simp_all
  have "AppendRune b r = b @ encode3 r"
    using assms by (auto simp: AppendRune_def Let_def m)
  also have "encode3 r = [byte (0xE0 OR drop_bit 12 r), byte (0x80 OR (drop_bit 6 r AND 0x3F)),
                byte (0x80 OR (r AND 0x3F))]" by (simp add: encode3_def)
  also have "0xE0 OR drop_bit 12 r = 224 + r div 4096"
    using const_or(3) [OF d] by (simp add: drop_bit_eq_div)
  also have "0x80 OR (drop_bit 6 r AND 0x3F) = 128 + (r div 64) mod 64"
    using const_or(1) [of "(r div 64) mod 64"] by (simp add: and_low_bits drop_bit_eq_div)
  also have "0x80 OR (r AND 0x3F) = 128 + r mod 64"
    using const_or(1) [of "r mod 64"] by (simp add: and_low_bits)
  finally show ?thesis by (simp add: byte_char_of)
qed

lemma enc4:
  assumes "0x10000 \<le> r" "r \<le> 0x10FFFF"
  shows "AppendRune b r
           = b @ [char_of (240 + r div 262144), char_of (128 + (r div 4096) mod 64),
                  char_of (128 + (r div 64) mod 64), char_of (128 + r mod 64)]"
proof -
  from assms have m: "r mod 2 ^ 32 = r" by simp
  from assms have d: "0 \<le> r div 262144" "r div 262144 < 8" by simp_all
  have "AppendRune b r = b @ [byte (0xF0 OR drop_bit 18 r), byte (0x80 OR (drop_bit 12 r AND 0x3F)),
                byte (0x80 OR (drop_bit 6 r AND 0x3F)), byte (0x80 OR (r AND 0x3F))]"
    using assms by (simp add: AppendRune_def Let_def m)
  also have "0xF0 OR drop_bit 18 r = 240 + r div 262144"
    using const_or(4) [OF d] by (simp add: drop_bit_eq_div)
  also have "0x80 OR (drop_bit 12 r AND 0x3F) = 128 + (r div 4096) mod 64"
    using const_or(1) [of "(r div 4096) mod 64"] by (simp add: and_low_bits drop_bit_eq_div)
  also have "0x80 OR (drop_bit 6 r AND 0x3F) = 128 + (r div 64) mod 64"
    using const_or(1) [of "(r div 64) mod 64"] by (simp add: and_low_bits drop_bit_eq_div)
  also have "0x80 OR (r AND 0x3F) = 128 + r mod 64"
    using const_or(1) [of "r mod 64"] by (simp add: and_low_bits)
  finally show ?thesis by (simp add: byte_char_of)
qed

lemma of_char_range: "0 \<le> (of_char c :: int) \<and> (of_char c :: int) < 256"
proof -
  have e: "(of_char c :: int) mod 256 = of_char c" by (rule of_char_mod_256)
  have "0 \<le> (of_char c :: int) mod 256" by (rule pos_mod_sign) simp
  moreover have "(of_char c :: int) mod 256 < 256" by (rule pos_mod_bound) simp
  ultimately show ?thesis unfolding e by blast
qed

lemma first_byte_Lead_hi:
  "first_byte b = Lead sz lo hi
     \<Longrightarrow> (b = 0xED \<longrightarrow> hi \<le> 0x9F) \<and> (b = 0xF4 \<longrightarrow> hi \<le> 0x8F) \<and> (sz = 3 \<longrightarrow> b \<le> 0xEF)
       \<and> (sz = 2 \<longrightarrow> 0xC2 \<le> b) \<and> (sz = 4 \<longrightarrow> b \<le> 0xF4)"
  by (simp add: first_byte_def split: if_splits)

lemma take2_nth: "2 \<le> length p \<Longrightarrow> take 2 p = [p ! 0, p ! 1]"
  by (cases p; cases "tl p") auto

lemma take3_nth: "3 \<le> length p \<Longrightarrow> take 3 p = [p ! 0, p ! 1, p ! 2]"
  by (cases p; cases "tl p"; cases "tl (tl p)") auto

lemma take4_nth: "4 \<le> length p \<Longrightarrow> take 4 p = [p ! 0, p ! 1, p ! 2, p ! 3]"
  by (cases p; cases "tl p"; cases "tl (tl p)"; cases "tl (tl (tl p))") auto

lemma divmod_rebuild:
  fixes n x y :: int
  assumes "0 \<le> y" "y < n"
  shows "(n * x + y) div n = x" "(n * x + y) mod n = y"
  using assms by simp_all

lemma roundtrip2:
  fixes p0 b1 :: int
  assumes "0xC2 \<le> p0" "p0 \<le> 0xDF" "0x80 \<le> b1" "b1 \<le> 0xBF"
  shows "AppendRune b (push_bit 6 (p0 AND 0x1F) OR (b1 AND 0x3F)) = b @ [char_of p0, char_of b1]"
proof -
  define a where "a = p0 - 192"
  define c where "c = b1 - 128"
  from assms have bd: "2 \<le> a" "a < 32" "0 \<le> c" "c < 64" by (simp_all add: a_def c_def)
  have m: "p0 mod 32 = a" "b1 mod 64 = c" using assms unfolding a_def c_def by presburger+
  have r: "push_bit 6 (p0 AND 0x1F) OR (b1 AND 0x3F) = 64 * a + c"
    unfolding dec2_arith m ..
  have d: "(64 * a + c) div 64 = a" "(64 * a + c) mod 64 = c"
    using divmod_rebuild [of c 64 a] bd by simp_all
  have "0x80 \<le> 64 * a + c" "64 * a + c \<le> 0x7FF" using bd by simp_all
  from enc2 [OF this, of b] show ?thesis
    unfolding r d by (simp add: a_def c_def)
qed

lemma roundtrip3:
  fixes p0 b1 b2 :: int
  assumes "0xE0 \<le> p0" "p0 \<le> 0xEF" "0x80 \<le> b1" "b1 \<le> 0xBF" "0x80 \<le> b2" "b2 \<le> 0xBF"
    and "p0 = 0xE0 \<longrightarrow> 0xA0 \<le> b1" and "p0 = 0xED \<longrightarrow> b1 \<le> 0x9F"
  shows "AppendRune b (push_bit 12 (p0 AND 0x0F) OR (push_bit 6 (b1 AND 0x3F) OR (b2 AND 0x3F)))
           = b @ [char_of p0, char_of b1, char_of b2]"
proof -
  define a where "a = p0 - 224"
  define c where "c = b1 - 128"
  define d where "d = b2 - 128"
  from assms have bd: "0 \<le> a" "a < 16" "0 \<le> c" "c < 64" "0 \<le> d" "d < 64"
    and e0: "a = 0 \<longrightarrow> 32 \<le> c" and ed: "a = 13 \<longrightarrow> c < 32"
    by (auto simp: a_def c_def d_def)
  have m: "p0 mod 16 = a" "b1 mod 64 = c" "b2 mod 64 = d"
    using assms unfolding a_def c_def d_def by presburger+
  define r where "r = 4096 * a + 64 * c + d"
  have r: "push_bit 12 (p0 AND 0x0F) OR (push_bit 6 (b1 AND 0x3F) OR (b2 AND 0x3F)) = r"
    unfolding dec3_arith m r_def ..
  have d1: "r div 4096 = a"
    using divmod_rebuild(1) [of "64 * c + d" 4096 a] bd by (simp add: r_def add.assoc)
  have "r div 64 = 64 * a + c"
    using divmod_rebuild(1) [of d 64 "64 * a + c"] bd by (simp add: r_def algebra_simps)
  then have d2: "(r div 64) mod 64 = c"
    using divmod_rebuild(2) [of c 64 a] bd by simp
  have d3: "r mod 64 = d"
    using divmod_rebuild(2) [of d 64 "64 * a + c"] bd by (simp add: r_def algebra_simps)
  have lo: "0x800 \<le> r"
  proof (cases "a = 0")
    case True
    with e0 bd show ?thesis by (simp add: r_def)
  next
    case False
    with bd have "1 \<le> a" by simp
    with bd show ?thesis by (simp add: r_def)
  qed
  have hi: "r \<le> 0xFFFF" using bd by (simp add: r_def)
  have ns: "\<not> (0xD800 \<le> r \<and> r \<le> 0xDFFF)"
  proof (cases "a = 13")
    case True
    with ed bd show ?thesis by (simp add: r_def)
  next
    case False
    then consider "a \<le> 12" | "14 \<le> a" by linarith
    then show ?thesis using bd by cases (simp_all add: r_def)
  qed
  from enc3 [OF lo hi ns, of b] show ?thesis
    unfolding r d1 d2 d3 by (simp add: a_def c_def d_def)
qed

lemma roundtrip4:
  fixes p0 b1 b2 b3 :: int
  assumes "0xF0 \<le> p0" "p0 \<le> 0xF4" "0x80 \<le> b1" "b1 \<le> 0xBF" "0x80 \<le> b2" "b2 \<le> 0xBF"
    and "0x80 \<le> b3" "b3 \<le> 0xBF"
    and "p0 = 0xF0 \<longrightarrow> 0x90 \<le> b1" and "p0 = 0xF4 \<longrightarrow> b1 \<le> 0x8F"
  shows "AppendRune b (push_bit 18 (p0 AND 0x07)
            OR (push_bit 12 (b1 AND 0x3F) OR (push_bit 6 (b2 AND 0x3F) OR (b3 AND 0x3F))))
           = b @ [char_of p0, char_of b1, char_of b2, char_of b3]"
proof -
  define a where "a = p0 - 240"
  define c where "c = b1 - 128"
  define d where "d = b2 - 128"
  define e where "e = b3 - 128"
  from assms have bd: "0 \<le> a" "a \<le> 4" "0 \<le> c" "c < 64" "0 \<le> d" "d < 64" "0 \<le> e" "e < 64"
    and f0: "a = 0 \<longrightarrow> 16 \<le> c" and f4: "a = 4 \<longrightarrow> c < 16"
    by (auto simp: a_def c_def d_def e_def)
  have m: "p0 mod 8 = a" "b1 mod 64 = c" "b2 mod 64 = d" "b3 mod 64 = e"
    using assms unfolding a_def c_def d_def e_def by presburger+
  define r where "r = 262144 * a + 4096 * c + 64 * d + e"
  have r: "push_bit 18 (p0 AND 0x07)
            OR (push_bit 12 (b1 AND 0x3F) OR (push_bit 6 (b2 AND 0x3F) OR (b3 AND 0x3F))) = r"
    unfolding dec4_arith m r_def ..
  have d1: "r div 262144 = a"
    using divmod_rebuild(1) [of "4096 * c + 64 * d + e" 262144 a] bd
    by (simp add: r_def add.assoc)
  have "r div 4096 = 64 * a + c"
    using divmod_rebuild(1) [of "64 * d + e" 4096 "64 * a + c"] bd
    by (simp add: r_def algebra_simps)
  then have d2: "(r div 4096) mod 64 = c"
    using divmod_rebuild(2) [of c 64 a] bd by simp
  have "r div 64 = 64 * (64 * a + c) + d"
    using divmod_rebuild(1) [of e 64 "64 * (64 * a + c) + d"] bd
    by (simp add: r_def algebra_simps)
  then have d3: "(r div 64) mod 64 = d"
    using divmod_rebuild(2) [of d 64 "64 * a + c"] bd by simp
  have d4: "r mod 64 = e"
    using divmod_rebuild(2) [of e 64 "64 * (64 * a + c) + d"] bd
    by (simp add: r_def algebra_simps)
  have lo: "0x10000 \<le> r"
  proof (cases "a = 0")
    case True
    with f0 bd show ?thesis by (simp add: r_def)
  next
    case False
    with bd have "1 \<le> a" by simp
    with bd show ?thesis by (simp add: r_def)
  qed
  have hi: "r \<le> 0x10FFFF"
  proof (cases "a = 4")
    case True
    with f4 bd show ?thesis by (simp add: r_def)
  next
    case False
    with bd have "a \<le> 3" by simp
    with bd show ?thesis by (simp add: r_def)
  qed
  from enc4 [OF lo hi, of b] show ?thesis
    unfolding r d1 d2 d3 d4 by (simp add: a_def c_def d_def e_def)
qed

lemma DecodeRune_ascii:
  assumes "p \<noteq> []" and "(of_char (p ! 0) :: int) < 0x80"
  shows "DecodeRune p = (of_char (p ! 0), 1)"
proof -
  from assms(1) have l: "\<not> length p < 1" by (cases p) simp_all
  from assms(2) have "first_byte (of_char (p ! 0)) = Ascii" by (simp add: first_byte_def)
  with l show ?thesis by (simp add: DecodeRune_def)
qed

text \<open>
  Encoding what was decoded gives the decoded bytes back, unless the bytes were invalid:
  \<open>AppendRune\<close> undoes \<open>DecodeRune\<close> on every valid encoding.
\<close>

lemma DecodeRune_roundtrip:
  assumes "p \<noteq> []" and "DecodeRune p = (r, w)" and "\<not> (r = RuneError \<and> w = 1)"
  shows "AppendRune b r = b @ take w p"
proof -
  from assms(1) have l: "\<not> length p < 1" by (cases p) simp_all
  define p0 :: int where "p0 = of_char (p ! 0)"
  define b1 :: int where "b1 = of_char (p ! 1)"
  define b2 :: int where "b2 = of_char (p ! 2)"
  define b3 :: int where "b3 = of_char (p ! 3)"
  have ch: "char_of p0 = p ! 0" "char_of b1 = p ! 1" "char_of b2 = p ! 2" "char_of b3 = p ! 3"
    by (simp_all add: p0_def b1_def b2_def b3_def)
  show ?thesis
  proof (cases "first_byte p0")
    case Invalid
    with assms(2) l have "r = RuneError \<and> w = 1" by (simp add: DecodeRune_def p0_def)
    with assms(3) show ?thesis by simp
  next
    case Ascii
    then have lt: "p0 < 0x80" by (simp add: first_byte_def split: if_splits)
    from DecodeRune_ascii [OF assms(1)] lt assms(2) have rw: "r = p0" "w = 1"
      by (simp_all add: p0_def)
    have "0 \<le> p0" using of_char_range [of "p ! 0"] by (simp add: p0_def)
    from enc1 [OF this, of b] lt have "AppendRune b p0 = b @ [p ! 0]" by (simp add: ch)
    moreover from assms(1) have "take 1 p = [p ! 0]" by (cases p) simp_all
    ultimately show ?thesis using rw by simp
  next
    case (Lead sz lo hi)
    from first_byte_Lead [OF this]
    have sz: "2 \<le> sz" "sz \<le> 4" and lo: "0x80 \<le> lo" and hi: "hi \<le> 0xBF"
      and r0: "0xC2 \<le> p0" "p0 \<le> 0xF4" by simp_all
    note rg = first_byte_Lead_range [OF Lead]
    note rh = first_byte_Lead_hi [OF Lead]
    from sz consider "sz = 2" | "sz = 3" | "sz = 4" by linarith
    then show ?thesis
    proof cases
      case 1
      let ?v = "push_bit 6 (p0 AND 0x1F) OR (b1 AND 0x3F)"
      have "DecodeRune p =
          (if length p < 2 then (RuneError, 1)
           else if b1 < lo \<or> hi < b1 then (RuneError, 1) else (?v, 2))"
        using Lead l 1 by (simp add: DecodeRune_def Let_def p0_def b1_def)
      with assms(2,3) have c: "r = ?v" "w = 2" "lo \<le> b1" "b1 \<le> hi" "2 \<le> length p"
        by (auto split: if_splits)
      have "AppendRune b ?v = b @ [char_of p0, char_of b1]"
        using rg 1 r0 c lo hi by (intro roundtrip2) auto
      then show ?thesis using c take2_nth [OF c(5)] by (simp add: ch)
    next
      case 2
      let ?v = "push_bit 12 (p0 AND 0x0F) OR (push_bit 6 (b1 AND 0x3F) OR (b2 AND 0x3F))"
      have "DecodeRune p =
          (if length p < 3 then (RuneError, 1)
           else if b1 < lo \<or> hi < b1 then (RuneError, 1)
           else if b2 < 0x80 \<or> 0xBF < b2 then (RuneError, 1) else (?v, 3))"
        using Lead l 2 by (simp add: DecodeRune_def Let_def p0_def b1_def b2_def)
      with assms(2,3) have c: "r = ?v" "w = 3" "lo \<le> b1" "b1 \<le> hi" "0x80 \<le> b2" "b2 \<le> 0xBF"
        "3 \<le> length p"
        by (auto split: if_splits)
      have "AppendRune b ?v = b @ [char_of p0, char_of b1, char_of b2]"
        using rg rh 2 r0 c lo hi by (intro roundtrip3) auto
      then show ?thesis using c take3_nth [OF c(7)] by (simp add: ch)
    next
      case 3
      let ?v = "push_bit 18 (p0 AND 0x07)
                  OR (push_bit 12 (b1 AND 0x3F) OR (push_bit 6 (b2 AND 0x3F) OR (b3 AND 0x3F)))"
      have "DecodeRune p =
          (if length p < 4 then (RuneError, 1)
           else if b1 < lo \<or> hi < b1 then (RuneError, 1)
           else if b2 < 0x80 \<or> 0xBF < b2 then (RuneError, 1)
           else if b3 < 0x80 \<or> 0xBF < b3 then (RuneError, 1) else (?v, 4))"
        using Lead l 3 by (simp add: DecodeRune_def Let_def p0_def b1_def b2_def b3_def)
      with assms(2,3) have c: "r = ?v" "w = 4" "lo \<le> b1" "b1 \<le> hi" "0x80 \<le> b2" "b2 \<le> 0xBF"
        "0x80 \<le> b3" "b3 \<le> 0xBF" "4 \<le> length p"
        by (auto split: if_splits)
      have "AppendRune b ?v = b @ [char_of p0, char_of b1, char_of b2, char_of b3]"
        using rg rh 3 r0 c lo hi by (intro roundtrip4) auto
      then show ?thesis using c take4_nth [OF c(9)] by (simp add: ch)
    qed
  qed
qed

lemma escape_bytes_append: "escape_bytes (s @ t) = escape_bytes s @ escape_bytes t"
  by (simp add: escape_bytes_def)

lemma metachars_ascii: "c \<in> set metachars \<Longrightarrow> (of_char c :: int) < 0x80"
  by (auto simp: metachars_def)

lemma escape_bytes_high:
  "(\<And>c. c \<in> set t \<Longrightarrow> 0x80 \<le> (of_char c :: int)) \<Longrightarrow> escape_bytes t = t"
proof (induction t)
  case Nil
  then show ?case by (simp add: escape_bytes_def)
next
  case (Cons a t)
  have "0x80 \<le> (of_char a :: int)" by (rule Cons.prems) simp
  with metachars_ascii [of a] have "a \<notin> set metachars" by fastforce
  moreover have "escape_bytes t = t" by (rule Cons.IH) (simp add: Cons.prems)
  ultimately show ?case
    using escape_bytes_append [of "[a]" t] by (simp add: escape_bytes_def)
qed

lemma escape_bytes_no_meta: "\<not> ContainsAny s metachars \<Longrightarrow> escape_bytes s = s"
  by (induction s) (simp_all add: escape_bytes_def ContainsAny_def)

lemma meta_rune:
  "((of_char c :: int) = 0x2A \<or> (of_char c :: int) = 0x3F \<or> (of_char c :: int) = 0x5C
      \<or> (of_char c :: int) = 0x5B) = (c \<in> set metachars)"
proof -
  have e: "\<And>n. ((of_char c :: int) = of_char n) = (c = n)" by simp
  have "(of_char (CHR 0x2A) :: int) = 0x2A" "(of_char (CHR 0x3F) :: int) = 0x3F"
    "(of_char (CHR 0x5C) :: int) = 0x5C" "(of_char (CHR 0x5B) :: int) = 0x5B"
    by simp_all
  with e [of "CHR 0x2A"] e [of "CHR 0x3F"] e [of "CHR 0x5C"] e [of "CHR 0x5B"]
  show ?thesis unfolding metachars_def by (simp only: set_simps insert_iff empty_iff) metis
qed

lemma globEscape_loop_step:
  assumes "s \<noteq> []" and "DecodeRune s = (r, w)" and "\<not> (r = RuneError \<and> w = 1)"
  shows "AppendRune (if r = 0x2A \<or> r = 0x3F \<or> r = 0x5C \<or> r = 0x5B then b @ [CHR 0x5C] else b) r
           = b @ escape_bytes (take w s)"
proof (cases "(of_char (s ! 0) :: int) < 0x80")
  case True
  from DecodeRune_ascii [OF assms(1) True] assms(2) have rw: "r = of_char (s ! 0)" "w = 1"
    by simp_all
  from assms(1) have t: "take w s = [s ! 0]" unfolding rw by (cases s) simp_all
  have m: "(r = 0x2A \<or> r = 0x3F \<or> r = 0x5C \<or> r = 0x5B) = (s ! 0 \<in> set metachars)"
    unfolding rw by (rule meta_rune)
  show ?thesis
    unfolding DecodeRune_roundtrip [OF assms] m t by (simp add: escape_bytes_def)
next
  case False
  then have h: "0x80 \<le> (of_char (s ! 0) :: int)" by simp
  from DecodeRune_non_ascii [OF assms(1) h assms(2)]
  have r: "0x80 \<le> r" and k: "\<And>k. 0 < k \<Longrightarrow> k < w \<Longrightarrow> 0x80 \<le> (of_char (s ! k) :: int)"
    by blast+
  have "escape_bytes (take w s) = take w s"
  proof (rule escape_bytes_high)
    fix c assume "c \<in> set (take w s)"
    then obtain j where j: "j < length (take w s)" "c = take w s ! j"
      by (auto simp: in_set_conv_nth)
    then have jw: "j < w" and c: "c = s ! j" by simp_all
    show "0x80 \<le> (of_char c :: int)"
    proof (cases "j = 0")
      case True
      with h c show ?thesis by simp
    next
      case False
      with k [of j] jw c show ?thesis by simp
    qed
  qed
  moreover from r have "\<not> (r = 0x2A \<or> r = 0x3F \<or> r = 0x5C \<or> r = 0x5B)" by auto
  ultimately show ?thesis using DecodeRune_roundtrip [OF assms, of b] by simp
qed

text \<open>
  On valid UTF-8 the loop escapes byte by byte: a metacharacter is a one-byte rune, and
  the bytes of a longer rune are all at least 0x80.
\<close>

lemma globEscape_loop_valid:
  "ValidString s \<Longrightarrow> globEscape_loop b s = b @ escape_bytes s"
proof (induction "length s" arbitrary: b s rule: less_induct)
  case less
  show ?case
  proof (cases "s = []")
    case True
    then show ?thesis by (simp add: globEscape_loop.simps escape_bytes_def)
  next
    case False
    obtain r w where d: "DecodeRune s = (r, w)" by (cases "DecodeRune s")
    from less.prems False d have v: "\<not> (r = RuneError \<and> w = 1)" "ValidString (drop w s)"
      by (simp_all add: ValidString.simps [of s])
    from DecodeRune_width [of s] False d have "0 < w" by simp
    with False have "length (drop w s) < length s" by (cases s) simp_all
    note ih = less.hyps [OF this v(2)]
    let ?b1 = "if r = 0x2A \<or> r = 0x3F \<or> r = 0x5C \<or> r = 0x5B then b @ [CHR 0x5C] else b"
    have "globEscape_loop b s = globEscape_loop (AppendRune ?b1 r) (drop w s)"
      using False d by (simp add: globEscape_loop.simps [of b s] Let_def)
    also have "\<dots> = AppendRune ?b1 r @ escape_bytes (drop w s)" by (rule ih)
    also have "AppendRune ?b1 r = b @ escape_bytes (take w s)"
      by (rule globEscape_loop_step [OF False d v(1)])
    also have "(b @ escape_bytes (take w s)) @ escape_bytes (drop w s) = b @ escape_bytes s"
      using escape_bytes_append [of "take w s" "drop w s"] by simp
    finally show ?thesis .
  qed
qed

text \<open>
  On valid UTF-8 \<open>globEscape\<close> returns the input with a backslash before each
  metacharacter and every other byte unchanged, and the shortcut agrees with the loop.
\<close>

lemma globEscape_valid_utf8: "ValidString s \<Longrightarrow> globEscape s = escape_bytes s"
  using globEscape_loop_valid [of s "[]"] escape_bytes_no_meta [of s]
  by (simp add: globEscape_def metachars_def)

lemma globEscape_shortcut_agrees:
  "ValidString s \<Longrightarrow> \<not> ContainsAny s metachars \<Longrightarrow> globEscape_loop [] s = s"
  using globEscape_loop_valid [of s "[]"] escape_bytes_no_meta [of s] by simp

text \<open>
  Claim C6 says that \<open>globEscape\<close> passes every byte other than the four metacharacters
  through unchanged, and that the shortcut of line 115 agrees with the loop. Both hold on
  valid UTF-8 (\<open>globEscape_valid_utf8\<close>, \<open>globEscape_shortcut_agrees\<close>) and fail on a
  string that is not valid UTF-8: the loop decodes the byte 0xFF as \<open>RuneError\<close> and
  appends the encoding of U+FFFD in its place, while the shortcut returns such a string
  unchanged.
\<close>

theorem globEscape_invalid_utf8:
  "globEscape [CHR 0x2A, CHR 0xFF] = [CHR 0x5C, CHR 0x2A, CHR 0xEF, CHR 0xBF, CHR 0xBD]
   \<and> globEscape [CHR 0xFF] = [CHR 0xFF]
   \<and> globEscape_loop [] [CHR 0xFF] = [CHR 0xEF, CHR 0xBF, CHR 0xBD]"
  by code_simp

end
